theory Spec2Isabelle
  imports Main "HOL-Library.Word"
begin

unbundle bit_operations_syntax

section \<open>Scalars, errors and outcomes\<close>

text \<open>
  The library is a set of C++ templates over a scalar type \<open>T\<close>.  The element values are
  taken from an arbitrary ring \<open>'a\<close> (exact arithmetic); what the code needs of \<open>T\<close> besides
  its arithmetic, \<open>sizeof(T)\<close> and \<open>alignof(T)\<close>, is passed as a record.  The model is the
  default build of \<open>config.hpp\<close>: \<open>MATMUL_ENABLE_CHECKS = 1\<close> and \<open>MATMUL_ENABLE_OPCOUNT = 1\<close>.

  \<open>std::size_t\<close> values are natural numbers and pointers are byte addresses (natural
  numbers as well); the model is exact for every execution in which no \<open>size_t\<close>
  computation leaves the 64-bit range.  The two places where the source itself works in
  \<open>std::uint64_t\<close>, the operation counters and the sizing policy, carry their wrap-around.
\<close>

record scalar_type =
  sizeof_T :: nat
  alignof_T :: nat

text \<open>The exceptions thrown by the library, and \<open>NoReturn\<close> for a loop that does not end.\<close>

datatype error =
    InvalidArgument string
  | OutOfRange string
  | BadAlloc
  | OverflowError string
  | NoReturn

text \<open>
  A call either returns a value and the state it leaves, or throws and leaves the state
  it had reached at the throw.
\<close>

datatype ('v, 's) result = Done 'v 's | Fail error 's

definition bnd :: "('s \<Rightarrow> ('v, 's) result) \<Rightarrow> ('v \<Rightarrow> 's \<Rightarrow> ('w, 's) result) \<Rightarrow> 's \<Rightarrow> ('w, 's) result" where
  "bnd m f s = (case m s of Done v t \<Rightarrow> f v t | Fail e t \<Rightarrow> Fail e t)"

definition lift :: "error + 'v \<Rightarrow> 's \<Rightarrow> ('v, 's) result" where
  "lift r s = (case r of Inl e \<Rightarrow> Fail e s | Inr v \<Rightarrow> Done v s)"

text \<open>\<open>for (i = lo; i < hi; ++i) body\<close>: the body runs for each index in turn and a throw
  leaves the loop.\<close>

primrec for_each :: "nat list \<Rightarrow> (nat \<Rightarrow> 's \<Rightarrow> (unit, 's) result) \<Rightarrow> 's \<Rightarrow> (unit, 's) result" where
  "for_each [] body s = Done () s"
| "for_each (i # is) body s =
     (case body i s of Done _ t \<Rightarrow> for_each is body t | Fail e t \<Rightarrow> Fail e t)"

definition for_loop :: "nat \<Rightarrow> nat \<Rightarrow> (nat \<Rightarrow> 's \<Rightarrow> (unit, 's) result) \<Rightarrow> 's \<Rightarrow> (unit, 's) result" where
  "for_loop lo hi body = for_each [lo..<hi] body"

text \<open>The same loop carrying a local variable (the running \<open>sum\<close> of the naive kernel).\<close>

primrec for_acc :: "nat list \<Rightarrow> (nat \<Rightarrow> 'v \<Rightarrow> 's \<Rightarrow> ('v, 's) result) \<Rightarrow> 'v \<Rightarrow> 's \<Rightarrow> ('v, 's) result" where
  "for_acc [] body v s = Done v s"
| "for_acc (i # is) body v s =
     (case body i v s of Done w t \<Rightarrow> for_acc is body w t | Fail e t \<Rightarrow> Fail e t)"

section \<open>Matrix views (matrix.hpp)\<close>

record view =
  data :: nat
  rows :: nat
  cols :: nat
  stride :: nat

text \<open>The address of \<open>data[r * stride + c]\<close>.\<close>

definition elem_addr :: "scalar_type \<Rightarrow> view \<Rightarrow> nat \<Rightarrow> nat \<Rightarrow> nat" where
  "elem_addr T V r c = data V + (r * stride V + c) * sizeof_T T"

definition subview :: "scalar_type \<Rightarrow> view \<Rightarrow> nat \<Rightarrow> nat \<Rightarrow> nat \<Rightarrow> nat \<Rightarrow> error + view" where
  "subview T V r0 c0 rcount ccount =
     (if r0 + rcount > rows V \<or> c0 + ccount > cols V
      then Inl (InvalidArgument ''subview out of range'')
      else Inr \<lparr>data = data V + (r0 * stride V + c0) * sizeof_T T,
                rows = rcount, cols = ccount, stride = stride V\<rparr>)"

section \<open>The scratch arena (arena.hpp) and the operation counter (op_counter.hpp)\<close>

definition kScratchAlignmentBytes :: nat where
  "kScratchAlignmentBytes = 16"

record arena =
  buf :: nat
  cap_bytes :: nat
  off_bytes :: nat

definition capacity_bytes :: "arena \<Rightarrow> nat" where
  "capacity_bytes a = cap_bytes a"

definition used_bytes :: "arena \<Rightarrow> nat" where
  "used_bytes a = off_bytes a"

definition mark :: "arena \<Rightarrow> nat" where
  "mark a = off_bytes a"

definition rollback :: "nat \<Rightarrow> arena \<Rightarrow> error + arena" where
  "rollback m a =
     (if m > off_bytes a then Inl (InvalidArgument ''ScratchArena::rollback: mark out of range'')
      else Inr (a\<lparr>off_bytes := m\<rparr>))"

text \<open>\<open>(x + (a - 1)) & ~(a - 1)\<close> for an alignment \<open>a\<close> that is a power of two: the sum
  with its low bits cleared, which is the sum rounded down to a multiple of \<open>a\<close>.\<close>

definition align_up :: "nat \<Rightarrow> nat \<Rightarrow> nat" where
  "align_up x a = (x + (a - 1)) - (x + (a - 1)) mod a"

definition alloc_matrix :: "scalar_type \<Rightarrow> nat \<Rightarrow> nat \<Rightarrow> arena \<Rightarrow> error + view \<times> arena" where
  "alloc_matrix T rws cls a =
     (if rws = 0 \<or> cls = 0 then Inr (\<lparr>data = 0, rows = rws, cols = cls, stride = cls\<rparr>, a)
      else
        let bytes = rws * cls * sizeof_T T;
            align = max kScratchAlignmentBytes (alignof_T T);
            aligned_off = align_up (off_bytes a) align
        in if aligned_off + bytes > cap_bytes a then Inl BadAlloc
           else Inr (\<lparr>data = buf a + aligned_off, rows = rws, cols = cls, stride = cls\<rparr>,
                     a\<lparr>off_bytes := aligned_off + bytes\<rparr>))"

record op_counter =
  mul :: "64 word"
  add :: "64 word"

section \<open>The machine state\<close>

text \<open>
  One multiplication runs on a memory of scalar objects, indexed by the byte address at
  which each object starts, one arena and one operation counter.  \<open>peak_bytes\<close> is not a
  variable of the program: it records the largest value \<open>off_bytes\<close> of the arena has
  taken, so that the peak usage of the arena can be stated.  \<open>brk\<close> stands for the
  system allocator: \<open>operator new\<close> hands out fresh blocks above every address in use,
  and no address below \<open>brk\<close> is handed out again.
\<close>

record 'a machine =
  heap :: "nat \<Rightarrow> 'a"
  arena :: arena
  counter :: op_counter
  peak_bytes :: nat
  brk :: nat

text \<open>\<open>V(r, c)\<close> read and written, with the bounds check of the default build.\<close>

definition view_get :: "scalar_type \<Rightarrow> view \<Rightarrow> nat \<Rightarrow> nat \<Rightarrow> 'a machine \<Rightarrow> ('a, 'a machine) result" where
  "view_get T V r c s =
     (if r \<ge> rows V \<or> c \<ge> cols V then Fail (OutOfRange ''MatrixView index out of range'') s
      else Done (heap s (elem_addr T V r c)) s)"

definition view_set :: "scalar_type \<Rightarrow> view \<Rightarrow> nat \<Rightarrow> nat \<Rightarrow> 'a \<Rightarrow> 'a machine \<Rightarrow> (unit, 'a machine) result" where
  "view_set T V r c v s =
     (if r \<ge> rows V \<or> c \<ge> cols V then Fail (OutOfRange ''MatrixView index out of range'') s
      else Done () (s\<lparr>heap := (heap s)(elem_addr T V r c := v)\<rparr>))"

text \<open>\<open>if (ops) ops->mul += k\<close> and \<open>if (ops) ops->add += k\<close>; \<open>ops\<close> tells whether a
  counter was supplied (the pointer is not null).\<close>

definition count_mul :: "bool \<Rightarrow> 64 word \<Rightarrow> 'a machine \<Rightarrow> (unit, 'a machine) result" where
  "count_mul ops k s =
     Done () (if ops then s\<lparr>counter := (counter s)\<lparr>mul := mul (counter s) + k\<rparr>\<rparr> else s)"

definition count_add :: "bool \<Rightarrow> 64 word \<Rightarrow> 'a machine \<Rightarrow> (unit, 'a machine) result" where
  "count_add ops k s =
     Done () (if ops then s\<lparr>counter := (counter s)\<lparr>add := add (counter s) + k\<rparr>\<rparr> else s)"

definition arena_alloc :: "scalar_type \<Rightarrow> nat \<Rightarrow> nat \<Rightarrow> 'a machine \<Rightarrow> (view, 'a machine) result" where
  "arena_alloc T rws cls s =
     (case alloc_matrix T rws cls (arena s) of
        Inl e \<Rightarrow> Fail e s
      | Inr (V, a) \<Rightarrow> Done V (s\<lparr>arena := a, peak_bytes := max (peak_bytes s) (off_bytes a)\<rparr>))"

definition arena_rollback :: "nat \<Rightarrow> 'a machine \<Rightarrow> (unit, 'a machine) result" where
  "arena_rollback m s =
     (case rollback m (arena s) of
        Inl e \<Rightarrow> Fail e s
      | Inr a \<Rightarrow> Done () (s\<lparr>arena := a\<rparr>))"

section \<open>The naive kernel (naive.hpp)\<close>

definition naive_cell :: "scalar_type \<Rightarrow> bool \<Rightarrow> view \<Rightarrow> view \<Rightarrow> view \<Rightarrow> nat \<Rightarrow> nat \<Rightarrow> nat \<Rightarrow>
    ('a::ring) machine \<Rightarrow> (unit, 'a machine) result" where
  "naive_cell T ops A B C k i j =
     (if k = 0 then view_set T C i j 0
      else
        bnd (view_get T A i 0) (\<lambda>a.
        bnd (view_get T B 0 j) (\<lambda>b.
        bnd (count_mul ops 1) (\<lambda>_.
        bnd (for_acc [1..<k] (\<lambda>p sum.
               bnd (view_get T A i p) (\<lambda>a'.
               bnd (view_get T B p j) (\<lambda>b'.
               bnd (count_mul ops 1) (\<lambda>_.
               bnd (count_add ops 1) (\<lambda>_.
               Done (sum + a' * b')))))) (a * b)) (\<lambda>sum.
        view_set T C i j sum)))))"

definition gemm_naive_impl :: "scalar_type \<Rightarrow> bool \<Rightarrow> view \<Rightarrow> view \<Rightarrow> view \<Rightarrow>
    ('a::ring) machine \<Rightarrow> (unit, 'a machine) result" where
  "gemm_naive_impl T ops A B C s =
     (if cols A \<noteq> rows B then Fail (InvalidArgument ''gemm_naive: A.cols != B.rows'') s
      else if rows C \<noteq> rows A \<or> cols C \<noteq> cols B
        then Fail (InvalidArgument ''gemm_naive: C dims mismatch'') s
      else
        let m = rows A; k = cols A; n = cols B
        in for_loop 0 m (\<lambda>i. for_loop 0 n (\<lambda>j. naive_cell T ops A B C k i j)) s)"

definition gemm_naive :: "scalar_type \<Rightarrow> bool \<Rightarrow> view \<Rightarrow> view \<Rightarrow> view \<Rightarrow>
    ('a::ring) machine \<Rightarrow> (unit, 'a machine) result" where
  "gemm_naive T ops A B C = gemm_naive_impl T ops A B C"

section \<open>Strassen (strassen.hpp)\<close>

record strassen_config =
  leaf_size :: nat
  pad_to_power_of_two :: bool

definition is_power_of_two :: "nat \<Rightarrow> bool" where
  "is_power_of_two n \<longleftrightarrow> n \<noteq> 0 \<and> n AND (n - 1) = 0"

definition mat_add :: "scalar_type \<Rightarrow> bool \<Rightarrow> view \<Rightarrow> view \<Rightarrow> view \<Rightarrow>
    ('a::ring) machine \<Rightarrow> (unit, 'a machine) result" where
  "mat_add T ops A B Out s =
     (if rows A \<noteq> rows B \<or> cols A \<noteq> cols B \<or> rows Out \<noteq> rows A \<or> cols Out \<noteq> cols A
      then Fail (InvalidArgument ''mat_add: dimension mismatch'') s
      else for_loop 0 (rows A) (\<lambda>i. for_loop 0 (cols A) (\<lambda>j.
             bnd (view_get T A i j) (\<lambda>a.
             bnd (view_get T B i j) (\<lambda>b.
             bnd (view_set T Out i j (a + b)) (\<lambda>_.
             count_add ops 1))))) s)"

definition mat_sub :: "scalar_type \<Rightarrow> bool \<Rightarrow> view \<Rightarrow> view \<Rightarrow> view \<Rightarrow>
    ('a::ring) machine \<Rightarrow> (unit, 'a machine) result" where
  "mat_sub T ops A B Out s =
     (if rows A \<noteq> rows B \<or> cols A \<noteq> cols B \<or> rows Out \<noteq> rows A \<or> cols Out \<noteq> cols A
      then Fail (InvalidArgument ''mat_sub: dimension mismatch'') s
      else for_loop 0 (rows A) (\<lambda>i. for_loop 0 (cols A) (\<lambda>j.
             bnd (view_get T A i j) (\<lambda>a.
             bnd (view_get T B i j) (\<lambda>b.
             bnd (view_set T Out i j (a - b)) (\<lambda>_.
             count_add ops 1))))) s)"

text \<open>The quadrant-combination loop of \<open>strassen_rec\<close> (its last loop nest).\<close>

definition combine_cell :: "scalar_type \<Rightarrow> bool \<Rightarrow> view \<Rightarrow> view \<Rightarrow> view \<Rightarrow> view \<Rightarrow> view \<Rightarrow> view \<Rightarrow> view \<Rightarrow>
    view \<Rightarrow> view \<Rightarrow> view \<Rightarrow> view \<Rightarrow> nat \<Rightarrow> nat \<Rightarrow> ('a::ring) machine \<Rightarrow> (unit, 'a machine) result" where
  "combine_cell T ops M1 M2 M3 M4 M5 M6 M7 C11 C12 C21 C22 i j =
     bnd (view_get T M1 i j) (\<lambda>m1. bnd (view_get T M4 i j) (\<lambda>m4.
     bnd (view_get T M5 i j) (\<lambda>m5.
     bnd (view_get T M7 i j) (\<lambda>m7.
     let v11 = m1 + m4 - m5 + m7 in
     bnd (view_get T M3 i j) (\<lambda>m3. bnd (view_get T M5 i j) (\<lambda>m5'.
     let v12 = m3 + m5' in
     bnd (view_get T M2 i j) (\<lambda>m2. bnd (view_get T M4 i j) (\<lambda>m4'.
     let v21 = m2 + m4' in
     bnd (view_get T M1 i j) (\<lambda>m1'. bnd (view_get T M2 i j) (\<lambda>m2'.
     bnd (view_get T M3 i j) (\<lambda>m3'.
     bnd (view_get T M6 i j) (\<lambda>m6.
     let v22 = m1' - m2' + m3' + m6 in
     bnd (count_add ops 8) (\<lambda>_.
     bnd (view_set T C11 i j v11) (\<lambda>_.
     bnd (view_set T C12 i j v12) (\<lambda>_.
     bnd (view_set T C21 i j v21) (\<lambda>_.
     view_set T C22 i j v22))))))))))))))))"

lemma bnd_cong [fundef_cong]:
  assumes "m s = m' s'" and "\<And>v t. m' s' = Done v t \<Longrightarrow> f v t = f' v t"
  shows "bnd m f s = bnd m' f' s'"
  using assms by (simp add: bnd_def split: result.splits)

function strassen_rec :: "scalar_type \<Rightarrow> bool \<Rightarrow> view \<Rightarrow> view \<Rightarrow> view \<Rightarrow> nat \<Rightarrow>
    ('a::ring) machine \<Rightarrow> (unit, 'a machine) result" where
  "strassen_rec T ops A B C leaf s =
     (if rows A \<noteq> cols A \<or> rows B \<noteq> cols B \<or> rows C \<noteq> cols C
        then Fail (InvalidArgument ''strassen_rec: non-square'') s
      else if rows A \<noteq> rows B \<or> rows A \<noteq> rows C
        then Fail (InvalidArgument ''strassen_rec: size mismatch'') s
      else if rows A = 0 then Done () s
      else if rows A \<le> leaf then gemm_naive T ops A B C s
      else if rows A mod 2 \<noteq> 0
        then Fail (InvalidArgument ''strassen_rec: n must be even (pad first)'') s
      else
       (bnd (lift (subview T A 0 0 (rows A div 2) (rows A div 2))) (\<lambda>A11.
        bnd (lift (subview T A 0 (rows A div 2) (rows A div 2) (rows A div 2))) (\<lambda>A12.
        bnd (lift (subview T A (rows A div 2) 0 (rows A div 2) (rows A div 2))) (\<lambda>A21.
        bnd (lift (subview T A (rows A div 2) (rows A div 2) (rows A div 2) (rows A div 2))) (\<lambda>A22.
        bnd (lift (subview T B 0 0 (rows A div 2) (rows A div 2))) (\<lambda>B11.
        bnd (lift (subview T B 0 (rows A div 2) (rows A div 2) (rows A div 2))) (\<lambda>B12.
        bnd (lift (subview T B (rows A div 2) 0 (rows A div 2) (rows A div 2))) (\<lambda>B21.
        bnd (lift (subview T B (rows A div 2) (rows A div 2) (rows A div 2) (rows A div 2))) (\<lambda>B22.
        bnd (lift (subview T C 0 0 (rows A div 2) (rows A div 2))) (\<lambda>C11.
        bnd (lift (subview T C 0 (rows A div 2) (rows A div 2) (rows A div 2))) (\<lambda>C12.
        bnd (lift (subview T C (rows A div 2) 0 (rows A div 2) (rows A div 2))) (\<lambda>C21.
        bnd (lift (subview T C (rows A div 2) (rows A div 2) (rows A div 2) (rows A div 2))) (\<lambda>C22.
        bnd (arena_alloc T (rows A div 2) (rows A div 2)) (\<lambda>M1.
        bnd (arena_alloc T (rows A div 2) (rows A div 2)) (\<lambda>M2.
        bnd (arena_alloc T (rows A div 2) (rows A div 2)) (\<lambda>M3.
        bnd (arena_alloc T (rows A div 2) (rows A div 2)) (\<lambda>M4.
        bnd (arena_alloc T (rows A div 2) (rows A div 2)) (\<lambda>M5.
        bnd (arena_alloc T (rows A div 2) (rows A div 2)) (\<lambda>M6.
        bnd (arena_alloc T (rows A div 2) (rows A div 2)) (\<lambda>M7.
        bnd (arena_alloc T (rows A div 2) (rows A div 2)) (\<lambda>T1.
        bnd (arena_alloc T (rows A div 2) (rows A div 2)) (\<lambda>T2.
        bnd (mat_add T ops A11 A22 T1) (\<lambda>_.
        bnd (mat_add T ops B11 B22 T2) (\<lambda>_.
        bnd (strassen_rec T ops
               \<lparr>data = data T1, rows = rows A div 2, cols = rows A div 2, stride = stride T1\<rparr>
               \<lparr>data = data T2, rows = rows A div 2, cols = rows A div 2, stride = stride T2\<rparr>
               M1 leaf) (\<lambda>_.
        bnd (mat_add T ops A21 A22 T1) (\<lambda>_.
        bnd (strassen_rec T ops
               \<lparr>data = data T1, rows = rows A div 2, cols = rows A div 2, stride = stride T1\<rparr>
               B11 M2 leaf) (\<lambda>_.
        bnd (mat_sub T ops B12 B22 T2) (\<lambda>_.
        bnd (strassen_rec T ops A11
               \<lparr>data = data T2, rows = rows A div 2, cols = rows A div 2, stride = stride T2\<rparr>
               M3 leaf) (\<lambda>_.
        bnd (mat_sub T ops B21 B11 T2) (\<lambda>_.
        bnd (strassen_rec T ops A22
               \<lparr>data = data T2, rows = rows A div 2, cols = rows A div 2, stride = stride T2\<rparr>
               M4 leaf) (\<lambda>_.
        bnd (mat_add T ops A11 A12 T1) (\<lambda>_.
        bnd (strassen_rec T ops
               \<lparr>data = data T1, rows = rows A div 2, cols = rows A div 2, stride = stride T1\<rparr>
               B22 M5 leaf) (\<lambda>_.
        bnd (mat_sub T ops A21 A11 T1) (\<lambda>_.
        bnd (mat_add T ops B11 B12 T2) (\<lambda>_.
        bnd (strassen_rec T ops
               \<lparr>data = data T1, rows = rows A div 2, cols = rows A div 2, stride = stride T1\<rparr>
               \<lparr>data = data T2, rows = rows A div 2, cols = rows A div 2, stride = stride T2\<rparr>
               M6 leaf) (\<lambda>_.
        bnd (mat_sub T ops A12 A22 T1) (\<lambda>_.
        bnd (mat_add T ops B21 B22 T2) (\<lambda>_.
        bnd (strassen_rec T ops
               \<lparr>data = data T1, rows = rows A div 2, cols = rows A div 2, stride = stride T1\<rparr>
               \<lparr>data = data T2, rows = rows A div 2, cols = rows A div 2, stride = stride T2\<rparr>
               M7 leaf) (\<lambda>_.
        bnd (for_loop 0 (rows A div 2) (\<lambda>i. for_loop 0 (rows A div 2) (\<lambda>j.
               combine_cell T ops M1 M2 M3 M4 M5 M6 M7 C11 C12 C21 C22 i j))) (\<lambda>_.
        arena_rollback (mark (arena s))
        )))))))))))))))))))))))))))))))))))))))) s)"
  by pat_completeness auto


termination strassen_rec
  apply (relation "measure (\<lambda>(T, ops, A, B, C, leaf, s). rows A)")
   apply simp
  apply (auto simp: lift_def subview_def split: if_splits sum.splits)
  done

declare strassen_rec.simps [simp del]

definition gemm_strassen_pow2_prealloc :: "scalar_type \<Rightarrow> bool \<Rightarrow> view \<Rightarrow> view \<Rightarrow> view \<Rightarrow>
    strassen_config \<Rightarrow> ('a::ring) machine \<Rightarrow> (unit, 'a machine) result" where
  "gemm_strassen_pow2_prealloc T ops A B C cfg s =
     (if cols A \<noteq> rows B then Fail (InvalidArgument ''gemm_strassen: A.cols != B.rows'') s
      else if rows C \<noteq> rows A \<or> cols C \<noteq> cols B
        then Fail (InvalidArgument ''gemm_strassen: C dims mismatch'') s
      else if rows A \<noteq> cols A \<or> rows B \<noteq> cols B \<or> rows C \<noteq> cols C
        then Fail (InvalidArgument ''gemm_strassen: square only'') s
      else if rows A \<noteq> rows B \<or> rows A \<noteq> rows C
        then Fail (InvalidArgument ''gemm_strassen: size mismatch'') s
      else if \<not> is_power_of_two (rows A)
        then Fail (InvalidArgument ''gemm_strassen_pow2_prealloc: n must be power of two'') s
      else strassen_rec T ops A B C (leaf_size cfg) s)"

subsection \<open>The sizing policy\<close>

text \<open>\<open>while (p < n) p <<= 1\<close>; started at 0 the loop would not end.\<close>

partial_function (option) np_loop :: "nat \<Rightarrow> nat \<Rightarrow> nat option" where
  "np_loop p n = (if p < n then np_loop (2 * p) n else Some p)"

definition next_power_of_two :: "nat \<Rightarrow> nat option" where
  "next_power_of_two n = (if n = 0 then Some 1 else np_loop 1 n)"

text \<open>\<open>while (t > 1) { t >>= 1; ++levels; }\<close>\<close>

fun levels_loop :: "nat \<Rightarrow> nat \<Rightarrow> nat" where
  "levels_loop t levels = (if t > 1 then levels_loop (t div 2) (levels + 1) else levels)"

declare levels_loop.simps [simp del]

definition SIZE_MAX :: nat where
  "SIZE_MAX = 2 ^ 64 - 1"

text \<open>The sizing policy computes in \<open>std::uint64_t\<close>: every product and sum is taken
  modulo \<open>2 ^ 64\<close>.\<close>

definition strassen_scratch_bytes :: "scalar_type \<Rightarrow> nat \<Rightarrow> error + nat" where
  "strassen_scratch_bytes T n =
     (if n = 0 then Inr 0
      else
        let nn = (n * n) mod 2 ^ 64;
            data_bytes = (3 * nn * sizeof_T T) mod 2 ^ 64;
            levels = levels_loop n 0;
            align = kScratchAlignmentBytes;
            overhead = (9 * levels * align + 1024) mod 2 ^ 64;
            total = (data_bytes + overhead) mod 2 ^ 64
        in if total > SIZE_MAX then Inl (OverflowError ''strassen_scratch_bytes overflow'')
           else Inr total)"

subsection \<open>Owned storage (aligned_alloc.hpp, matrix.hpp)\<close>

definition kAlignmentBytes :: nat where
  "kAlignmentBytes = 64"

text \<open>\<open>AlignedBuffer::allocate\<close>: nothing for zero bytes (the pointer stays null),
  else a fresh block from \<open>operator new\<close>.\<close>

definition buffer_allocate :: "nat \<Rightarrow> 'a machine \<Rightarrow> (nat, 'a machine) result" where
  "buffer_allocate bytes s =
     (if bytes = 0 then Done 0 s
      else let p = align_up (brk s) kAlignmentBytes in Done p (s\<lparr>brk := p + bytes\<rparr>))"

text \<open>\<open>ScratchArena<T> arena(capacity_bytes)\<close>: the new arena becomes the arena of the
  state.\<close>

definition new_arena :: "nat \<Rightarrow> 'a machine \<Rightarrow> (unit, 'a machine) result" where
  "new_arena capacity =
     bnd (buffer_allocate capacity) (\<lambda>p s.
       Done () (s\<lparr>arena := \<lparr>buf = p, cap_bytes = capacity, off_bytes = 0\<rparr>, peak_bytes := 0\<rparr>))"

text \<open>\<open>Matrix<T> M(r, c)\<close>, \<open>M.fill(v)\<close> and \<open>M.view()\<close>; a matrix object is its view
  (\<open>stride = cols\<close>).\<close>

definition new_matrix :: "scalar_type \<Rightarrow> nat \<Rightarrow> nat \<Rightarrow> 'a machine \<Rightarrow> (view, 'a machine) result" where
  "new_matrix T r c =
     bnd (buffer_allocate (r * c * sizeof_T T)) (\<lambda>p.
       Done \<lparr>data = p, rows = r, cols = c, stride = c\<rparr>)"

definition matrix_fill :: "scalar_type \<Rightarrow> view \<Rightarrow> 'a \<Rightarrow> 'a machine \<Rightarrow> (unit, 'a machine) result" where
  "matrix_fill T M v =
     for_loop 0 (rows M * stride M) (\<lambda>i s.
       Done () (s\<lparr>heap := (heap s)(data M + i * sizeof_T T := v)\<rparr>))"

text \<open>
  The convenience wrapper \<open>gemm_strassen\<close> (strassen.hpp, lines 207 to 244) is not
  embedded.  Its padded path passes \<open>Ap.view()\<close>, \<open>Bp.view()\<close> of the non-const
  matrices \<open>Ap\<close>, \<open>Bp\<close>, which are \<open>MatrixView<T>\<close>, to \<open>detail::strassen_rec<T>\<close>,
  whose parameters are \<open>const MatrixView<const T>&\<close>; \<open>MatrixView<const T>\<close> is a separate
  specialisation with no constructor from \<open>MatrixView<T>\<close>, so the template is ill-formed
  whenever it is instantiated and has no behaviour to model.  The callers in main.cpp
  and bench.cpp go through \<open>gemm_strassen_pow2_prealloc\<close>.
\<close>

section \<open>Expected operation counts (bench.cpp)\<close>

text \<open>\<open>ops_naive\<close> and \<open>ops_strassen\<close> of the benchmark driver; they compute in
  \<open>std::uint64_t\<close>, which the counters are compared with modulo \<open>2 ^ 64\<close>.\<close>

definition ops_naive :: "nat \<Rightarrow> nat \<times> nat" where
  "ops_naive n = (n * n * n, n * n * (if n > 0 then n - 1 else 0))"

function ops_strassen :: "nat \<Rightarrow> nat \<Rightarrow> nat \<times> nat" where
  "ops_strassen n leaf =
     (if n \<le> leaf then ops_naive n
      else let m = n div 2; (m_mul, m_add) = ops_strassen m leaf
           in (7 * m_mul, 7 * m_add + 18 * m * m))"
  by pat_completeness auto

termination
  by (relation "measure fst") auto

declare ops_strassen.simps [simp del]

section \<open>Specification vocabulary\<close>

text \<open>A call that returned.\<close>

definition is_done :: "('v, 's) result \<Rightarrow> bool" where
  "is_done r = (case r of Done _ _ \<Rightarrow> True | Fail _ _ \<Rightarrow> False)"

text \<open>\<open>wp m Q E s\<close>: run from \<open>s\<close>, \<open>m\<close> returns in a state satisfying \<open>Q\<close> or throws in a
  state satisfying \<open>E\<close>.\<close>

definition wp :: "('s \<Rightarrow> ('v, 's) result) \<Rightarrow> ('v \<Rightarrow> 's \<Rightarrow> bool) \<Rightarrow> (error \<Rightarrow> 's \<Rightarrow> bool) \<Rightarrow> 's \<Rightarrow> bool" where
  "wp m Q E s = (case m s of Done v t \<Rightarrow> Q v t | Fail e t \<Rightarrow> E e t)"

text \<open>Concrete inputs: 8-byte scalars, the matrices \<open>[[1,2],[3,4]]\<close> at address 0,
  \<open>[[5,6],[7,8]]\<close> at address 32, a destination at address 64 and an arena of 1264 bytes
  at address 4096.\<close>

definition double_T :: scalar_type where
  "double_T = \<lparr>sizeof_T = 8, alignof_T = 8\<rparr>"

definition A2 :: view where
  "A2 = \<lparr>data = 0, rows = 2, cols = 2, stride = 2\<rparr>"

definition B2 :: view where
  "B2 = \<lparr>data = 32, rows = 2, cols = 2, stride = 2\<rparr>"

definition C2 :: view where
  "C2 = \<lparr>data = 64, rows = 2, cols = 2, stride = 2\<rparr>"

definition heap2 :: "nat \<Rightarrow> int" where
  "heap2 a = (if a = 0 then 1 else if a = 8 then 2 else if a = 16 then 3 else if a = 24 then 4
              else if a = 32 then 5 else if a = 40 then 6 else if a = 48 then 7
              else if a = 56 then 8 else 0)"

definition arena2 :: arena where
  "arena2 = \<lparr>buf = 4096, cap_bytes = 1264, off_bytes = 0\<rparr>"

definition state2 :: "int machine" where
  "state2 = \<lparr>heap = heap2, arena = arena2, counter = \<lparr>mul = 0, add = 0\<rparr>,
             peak_bytes = 0, brk = 8192\<rparr>"

subsection \<open>Memory footprints, arena layout and invariants of a run\<close>

definition cells :: "scalar_type \<Rightarrow> view \<Rightarrow> nat set" where
  "cells T V = {elem_addr T V r c | r c. r < rows V \<and> c < cols V}"

definition free_region :: "arena \<Rightarrow> nat set" where
  "free_region a = {x. buf a + off_bytes a \<le> x \<and> x < buf a + cap_bytes a}"

definition inj_view :: "scalar_type \<Rightarrow> view \<Rightarrow> bool" where
  "inj_view T V \<longleftrightarrow> (\<forall>i<rows V. \<forall>j<cols V. \<forall>i'<rows V. \<forall>j'<cols V.
     elem_addr T V i j = elem_addr T V i' j' \<longrightarrow> i = i' \<and> j = j')"

definition bump :: "bool \<Rightarrow> 64 word \<Rightarrow> 64 word \<Rightarrow> op_counter \<Rightarrow> op_counter" where
  "bump ops km ka c = (if ops then c\<lparr>mul := mul c + km, add := add c + ka\<rparr> else c)"

definition touches :: "bool \<Rightarrow> 64 word \<Rightarrow> 64 word \<Rightarrow> nat set \<Rightarrow> 'a machine \<Rightarrow> 'a machine \<Rightarrow> bool" where
  "touches ops km ka W s t \<longleftrightarrow>
     arena t = arena s \<and> peak_bytes t = peak_bytes s \<and> brk t = brk s
     \<and> counter t = bump ops km ka (counter s)
     \<and> (\<forall>a. a \<notin> W \<longrightarrow> heap t a = heap s a)"

definition zip_loop :: "scalar_type \<Rightarrow> bool \<Rightarrow> ('a \<Rightarrow> 'a \<Rightarrow> 'a) \<Rightarrow> view \<Rightarrow> view \<Rightarrow> view \<Rightarrow>
    'a machine \<Rightarrow> (unit, 'a machine) result" where
  "zip_loop T ops f A B Out =
     for_loop 0 (rows A) (\<lambda>i. for_loop 0 (cols A) (\<lambda>j.
       bnd (view_get T A i j) (\<lambda>a.
       bnd (view_get T B i j) (\<lambda>b.
       bnd (view_set T Out i j (f a b)) (\<lambda>_.
       count_add ops 1)))))"

definition writes_apart :: "scalar_type \<Rightarrow> view \<Rightarrow> nat set \<Rightarrow> bool" where
  "writes_apart T Out R \<longleftrightarrow> inj_view T Out \<and> cells T Out \<inter> R = {}"

definition dot_step :: "scalar_type \<Rightarrow> bool \<Rightarrow> view \<Rightarrow> view \<Rightarrow> nat \<Rightarrow> nat \<Rightarrow> nat \<Rightarrow> 'a \<Rightarrow>
    ('a::ring) machine \<Rightarrow> ('a, 'a machine) result" where
  "dot_step T ops A B i j = (\<lambda>p sum.
           bnd (view_get T A i p) (\<lambda>a'.
           bnd (view_get T B p j) (\<lambda>b'.
           bnd (count_mul ops 1) (\<lambda>_.
           bnd (count_add ops 1) (\<lambda>_.
           Done (sum + a' * b'))))))"

definition quad_apart :: "scalar_type \<Rightarrow> view \<Rightarrow> view \<Rightarrow> view \<Rightarrow> view \<Rightarrow> nat set \<Rightarrow> bool" where
  "quad_apart T C11 C12 C21 C22 R \<longleftrightarrow>
     inj_view T C11 \<and> inj_view T C12 \<and> inj_view T C21 \<and> inj_view T C22
     \<and> cells T C11 \<inter> cells T C12 = {} \<and> cells T C11 \<inter> cells T C21 = {}
     \<and> cells T C11 \<inter> cells T C22 = {} \<and> cells T C12 \<inter> cells T C21 = {}
     \<and> cells T C12 \<inter> cells T C22 = {} \<and> cells T C21 \<inter> cells T C22 = {}
     \<and> (cells T C11 \<union> cells T C12 \<union> cells T C21 \<union> cells T C22) \<inter> R = {}"

definition next_off :: "scalar_type \<Rightarrow> nat \<Rightarrow> nat \<Rightarrow> nat" where
  "next_off T m off = align_up off (max kScratchAlignmentBytes (alignof_T T)) + m * m * sizeof_T T"

definition scratch_view :: "scalar_type \<Rightarrow> nat \<Rightarrow> nat \<Rightarrow> nat \<Rightarrow> view" where
  "scratch_view T m b off =
     \<lparr>data = b + align_up off (max kScratchAlignmentBytes (alignof_T T)),
      rows = m, cols = m, stride = m\<rparr>"

definition alloc_step :: "scalar_type \<Rightarrow> nat \<Rightarrow> 'a machine \<Rightarrow> 'a machine" where
  "alloc_step T m s =
     s\<lparr>arena := (arena s)\<lparr>off_bytes := next_off T m (off_bytes (arena s))\<rparr>,
       peak_bytes := max (peak_bytes s) (next_off T m (off_bytes (arena s)))\<rparr>"

function usage :: "scalar_type \<Rightarrow> nat \<Rightarrow> nat \<Rightarrow> nat \<Rightarrow> nat" where
  "usage T leaf n off =
     (if n = 0 \<or> n \<le> leaf \<or> n mod 2 \<noteq> 0 then off
      else usage T leaf (n div 2) ((next_off T (n div 2) ^^ 9) off))"
  by pat_completeness auto

termination
  by (relation "measure (\<lambda>(T, leaf, n, off). n)") auto

declare usage.simps [simp del]

definition quadrant :: "scalar_type \<Rightarrow> view \<Rightarrow> nat \<Rightarrow> nat \<Rightarrow> nat \<Rightarrow> view" where
  "quadrant T V r0 c0 m =
     \<lparr>data = data V + (r0 * stride V + c0) * sizeof_T T, rows = m, cols = m, stride = stride V\<rparr>"

definition shape_ok :: "view \<Rightarrow> view \<Rightarrow> view \<Rightarrow> nat \<Rightarrow> bool" where
  "shape_ok A B C leaf \<longleftrightarrow>
     rows A = cols A \<and> rows B = cols B \<and> rows C = cols C \<and> rows A = rows B \<and> rows A = rows C
     \<and> (\<exists>k. rows A = 2 ^ k) \<and> 1 \<le> leaf"

definition run_inv :: "'a machine \<Rightarrow> arena \<Rightarrow> bool \<Rightarrow> 64 word \<Rightarrow> 64 word \<Rightarrow> nat \<Rightarrow> nat set \<Rightarrow>
    bool \<Rightarrow> 'a machine \<Rightarrow> bool" where
  "run_inv s a1 ops km ka U W G t \<longleftrightarrow> G \<and>
     arena t = a1 \<and> brk t = brk s \<and> peak_bytes s \<le> peak_bytes t
     \<and> peak_bytes t \<le> max (peak_bytes s) U
     \<and> counter t = bump ops km ka (counter s)
     \<and> (\<forall>a. a \<notin> W \<longrightarrow> heap t a = heap s a)"

definition rec_done :: "scalar_type \<Rightarrow> bool \<Rightarrow> view \<Rightarrow> 64 word \<Rightarrow> 64 word \<Rightarrow> nat \<Rightarrow>
    'a machine \<Rightarrow> 'a machine \<Rightarrow> bool" where
  "rec_done T ops C km ka U s t \<longleftrightarrow>
     U \<le> max (off_bytes (arena s)) (cap_bytes (arena s)) \<and>
     arena t = arena s \<and> brk t = brk s \<and> peak_bytes s \<le> peak_bytes t
     \<and> peak_bytes t \<le> max (peak_bytes s) U
     \<and> counter t = bump ops km ka (counter s)
     \<and> (\<forall>a. a \<notin> cells T C \<union> free_region (arena s) \<longrightarrow> heap t a = heap s a)"

definition rec_fail :: "nat \<Rightarrow> 'a machine \<Rightarrow> 'a machine \<Rightarrow> bool" where
  "rec_fail U s t \<longleftrightarrow>
     buf (arena t) = buf (arena s) \<and> cap_bytes (arena t) = cap_bytes (arena s)
     \<and> off_bytes (arena s) \<le> off_bytes (arena t) \<and> brk t = brk s
     \<and> peak_bytes s \<le> peak_bytes t \<and> peak_bytes t \<le> max (peak_bytes s) U
     \<and> (\<forall>a. a \<notin> free_region (arena s) \<longrightarrow> heap t a = heap s a)"

definition fail_post :: "bool \<Rightarrow> nat \<Rightarrow> 'a machine \<Rightarrow> error \<Rightarrow> 'a machine \<Rightarrow> bool" where
  "fail_post P U s e t \<longleftrightarrow>
     rec_fail U s t \<and> (P \<longrightarrow> e = BadAlloc) \<and> (e = BadAlloc \<longrightarrow> cap_bytes (arena s) < U)"

definition strassen_ok :: "scalar_type \<Rightarrow> bool \<Rightarrow> view \<Rightarrow> view \<Rightarrow> view \<Rightarrow> nat \<Rightarrow> ('a::ring) machine \<Rightarrow> bool" where
  "strassen_ok T ops A B C leaf s \<longleftrightarrow>
     wp (strassen_rec T ops A B C leaf)
       (\<lambda>_. rec_done T ops C (of_nat (fst (ops_strassen (rows A) leaf)))
                (of_nat (snd (ops_strassen (rows A) leaf)))
                (usage T leaf (rows A) (off_bytes (arena s))) s)
       (fail_post (shape_ok A B C leaf) (usage T leaf (rows A) (off_bytes (arena s))) s) s"

definition A3 :: view where
  "A3 = \<lparr>data = 0, rows = 3, cols = 3, stride = 3\<rparr>"

definition B3 :: view where
  "B3 = \<lparr>data = 72, rows = 3, cols = 3, stride = 3\<rparr>"

definition C3 :: view where
  "C3 = \<lparr>data = 144, rows = 3, cols = 3, stride = 3\<rparr>"

definition state2_small :: "nat \<Rightarrow> int machine" where
  "state2_small cap = state2\<lparr>arena := \<lparr>buf = 4096, cap_bytes = cap, off_bytes = 0\<rparr>\<rparr>"

definition A1 :: view where
  "A1 = \<lparr>data = 0, rows = 1, cols = 1, stride = 2\<rparr>"

definition B1 :: view where
  "B1 = \<lparr>data = 32, rows = 1, cols = 1, stride = 2\<rparr>"

definition C1 :: view where
  "C1 = \<lparr>data = 64, rows = 1, cols = 1, stride = 2\<rparr>"

function scratch_elems :: "nat \<Rightarrow> nat \<Rightarrow> nat" where
  "scratch_elems leaf n =
     (if n = 0 \<or> n \<le> leaf \<or> n mod 2 \<noteq> 0 then 0
      else 9 * ((n div 2) * (n div 2)) + scratch_elems leaf (n div 2))"
  by pat_completeness auto

termination
  by (relation "measure snd") auto

declare scratch_elems.simps [simp del]

definition aligned_for :: "scalar_type \<Rightarrow> nat \<Rightarrow> bool" where
  "aligned_for T off \<longleftrightarrow> alignof_T T \<le> kScratchAlignmentBytes \<or> alignof_T T dvd off"

definition state2_used :: "int machine" where
  "state2_used = state2\<lparr>arena := \<lparr>buf = 4096, cap_bytes = 1264, off_bytes = 1200\<rparr>\<rparr>"

definition fails_with :: "error \<Rightarrow> ('v, 's) result \<Rightarrow> bool" where
  "fails_with e r = (case r of Done _ _ \<Rightarrow> False | Fail e' _ \<Rightarrow> e' = e)"

definition rd :: "scalar_type \<Rightarrow> view \<Rightarrow> (nat \<Rightarrow> 'a) \<Rightarrow> nat \<Rightarrow> nat \<Rightarrow> 'a" where
  "rd T V h i j = h (elem_addr T V i j)"

definition holds :: "scalar_type \<Rightarrow> view \<Rightarrow> (nat \<Rightarrow> 'a) \<Rightarrow> (nat \<Rightarrow> nat \<Rightarrow> 'a) \<Rightarrow> bool" where
  "holds T V h X \<longleftrightarrow> (\<forall>i<rows V. \<forall>j<cols V. h (elem_addr T V i j) = X i j)"

definition mat_mul :: "nat \<Rightarrow> (nat \<Rightarrow> nat \<Rightarrow> 'a::ring) \<Rightarrow> (nat \<Rightarrow> nat \<Rightarrow> 'a) \<Rightarrow> nat \<Rightarrow> nat \<Rightarrow> 'a" where
  "mat_mul n X Y i j = (\<Sum>p<n. X i p * Y p j)"

definition vinv :: "scalar_type \<Rightarrow> arena \<Rightarrow> (view \<times> (nat \<Rightarrow> nat \<Rightarrow> 'a)) list \<Rightarrow> 'a machine \<Rightarrow> bool" where
  "vinv T a1 H t \<longleftrightarrow> arena t = a1 \<and> (\<forall>p\<in>set H. holds T (fst p) (heap t) (snd p))"

definition pre_ok :: "scalar_type \<Rightarrow> view \<Rightarrow> view \<Rightarrow> view \<Rightarrow> arena \<Rightarrow> bool" where
  "pre_ok T A B C a \<longleftrightarrow>
     cols C \<le> stride C \<and> cells T C \<inter> (cells T A \<union> cells T B) = {}
     \<and> (cells T A \<union> cells T B \<union> cells T C) \<inter> free_region a = {}"

definition value_ok :: "scalar_type \<Rightarrow> bool \<Rightarrow> view \<Rightarrow> view \<Rightarrow> view \<Rightarrow> nat \<Rightarrow> ('a::ring) machine \<Rightarrow> bool" where
  "value_ok T ops A B C leaf s \<longleftrightarrow>
     wp (strassen_rec T ops A B C leaf)
       (\<lambda>_ t. holds T C (heap t) (mat_mul (rows A) (rd T A (heap s)) (rd T B (heap s))))
       (\<lambda>_ _. True) s"

section \<open>Reasoning about outcomes and loops\<close>

lemma wp_bnd: "wp (bnd m f) Q E s = wp m (\<lambda>v t. wp (f v) Q E t) E s"
  by (simp add: wp_def bnd_def split: result.splits)

lemma wp_lift: "wp (lift r) Q E s = (case r of Inl e \<Rightarrow> E e s | Inr v \<Rightarrow> Q v s)"
  by (simp add: wp_def lift_def split: sum.splits)

lemma wp_cons:
  assumes "wp m Q' E' s" and "\<And>v t. Q' v t \<Longrightarrow> Q v t" and "\<And>e t. E' e t \<Longrightarrow> E e t"
  shows "wp m Q E s"
  using assms by (simp add: wp_def split: result.splits)

lemma wp_Done: "wp (Done v) Q E s = Q v s"
  by (simp add: wp_def)

lemma wp_for_each:
  assumes "I 0 s"
    and "\<And>k t. k < length xs \<Longrightarrow> I k t \<Longrightarrow> wp (body (xs ! k)) (\<lambda>_. I (Suc k)) E t"
  shows "wp (for_each xs body) (\<lambda>_. I (length xs)) E s"
  using assms
proof (induction xs arbitrary: I s)
  case Nil
  then show ?case by (simp add: wp_def)
next
  case (Cons x xs)
  have hd: "wp (body x) (\<lambda>_. I (Suc 0)) E s"
    using Cons.prems(2)[of 0 s] Cons.prems(1) by simp
  show ?case
  proof (cases "body x s")
    case (Done u t)
    with hd have "I (Suc 0) t" by (simp add: wp_def)
    moreover have "\<And>k t. k < length xs \<Longrightarrow> I (Suc k) t \<Longrightarrow> wp (body (xs ! k)) (\<lambda>_. I (Suc (Suc k))) E t"
      using Cons.prems(2) by fastforce
    ultimately have "wp (for_each xs body) (\<lambda>_. (\<lambda>k. I (Suc k)) (length xs)) E t"
      by (rule Cons.IH[where I = "\<lambda>k. I (Suc k)"])
    with Done show ?thesis by (simp add: wp_def)
  next
    case (Fail e t)
    with hd show ?thesis by (simp add: wp_def)
  qed
qed

lemma wp_for_loop:
  assumes "I 0 s"
    and "\<And>k t. k < n \<Longrightarrow> I k t \<Longrightarrow> wp (body k) (\<lambda>_. I (Suc k)) E t"
  shows "wp (for_loop 0 n body) (\<lambda>_. I n) E s"
  using wp_for_each[of I s "[0..<n]" body E] assms by (simp add: for_loop_def)

section \<open>The kernels and the recursion, step by step\<close>

lemma bump_0 [simp]: "bump ops 0 0 c = c"
  by (simp add: bump_def)

lemma bump_bump [simp]: "bump ops a b (bump ops c d x) = bump ops (c + a) (d + b) x"
  by (simp add: bump_def add.assoc)

lemma touches_refl: "touches ops 0 0 W s s"
  by (simp add: touches_def)

lemma touches_trans:
  "touches ops a b W s t \<Longrightarrow> touches ops c d W' t u \<Longrightarrow> W \<subseteq> X \<Longrightarrow> W' \<subseteq> X
   \<Longrightarrow> touches ops (a + c) (b + d) X s u"
  by (simp add: touches_def) (metis subsetD)

lemma touches_mono: "touches ops a b W s t \<Longrightarrow> W \<subseteq> X \<Longrightarrow> touches ops a b X s t"
  by (auto simp: touches_def)

lemma elem_addr_in_cells: "i < rows V \<Longrightarrow> j < cols V \<Longrightarrow> elem_addr T V i j \<in> cells T V"
  by (auto simp: cells_def)

text \<open>nested loops with a linear invariant\<close>

lemma wp_for_loop2:
  assumes "J 0 s"
    and step: "\<And>i j t. i < m \<Longrightarrow> j < n \<Longrightarrow> J (i * n + j) t
        \<Longrightarrow> wp (body i j) (\<lambda>_. J (Suc (i * n + j))) E t"
  shows "wp (for_loop 0 m (\<lambda>i. for_loop 0 n (body i))) (\<lambda>_. J (m * n)) E s"
proof -
  have "wp (for_loop 0 m (\<lambda>i. for_loop 0 n (body i))) (\<lambda>_. (\<lambda>i. J (i * n)) m) E s"
  proof (rule wp_for_loop[where I = "\<lambda>i. J (i * n)"])
    show "J (0 * n) s" using assms(1) by simp
  next
    fix i t assume i: "i < m" and Ji: "J (i * n) t"
    have "wp (for_loop 0 n (body i)) (\<lambda>_. (\<lambda>j. J (i * n + j)) n) E t"
    proof (rule wp_for_loop[where I = "\<lambda>j. J (i * n + j)"])
      show "J (i * n + 0) t" using Ji by simp
    next
      fix j u assume "j < n" "J (i * n + j) u"
      then show "wp (body i j) (\<lambda>_. J (i * n + Suc j)) E u"
        using step[OF i] by simp
    qed
    then show "wp (for_loop 0 n (body i)) (\<lambda>_. J (Suc i * n)) E t"
      by (simp add: add.commute)
  qed
  then show ?thesis .
qed

lemma lin_index_unique:
  fixes n :: nat
  assumes "i * n + j = i' * n + j'" "j < n" "j' < n"
  shows "i = i' \<and> j = j'"
proof -
  have "(i * n + j) div n = (i' * n + j') div n" using assms(1) by simp
  then have "i = i'" using assms(2,3) by simp
  then show ?thesis using assms(1) by simp
qed

lemma lin_index_less:
  fixes c :: nat
  assumes "i < r" "j < c"
  shows "i * c + j < r * c"
proof -
  have "i * c + j < Suc i * c" using assms(2) by simp
  also have "\<dots> \<le> r * c" using assms(1) by (intro mult_le_mono1) simp
  finally show ?thesis .
qed

lemma wp_view_get:
  "r < rows V \<Longrightarrow> c < cols V \<Longrightarrow> wp (view_get T V r c) Q E s = Q (heap s (elem_addr T V r c)) s"
  by (simp add: wp_def view_get_def)

lemma wp_view_set:
  "r < rows V \<Longrightarrow> c < cols V \<Longrightarrow>
   wp (view_set T V r c v) Q E s = Q () (s\<lparr>heap := (heap s)(elem_addr T V r c := v)\<rparr>)"
  by (simp add: wp_def view_set_def)

lemma wp_count_add:
  "wp (count_add ops k) Q E s = Q () (s\<lparr>counter := bump ops 0 k (counter s)\<rparr>)"
  by (cases ops) (simp_all add: wp_def count_add_def bump_def)

lemma wp_count_mul:
  "wp (count_mul ops k) Q E s = Q () (s\<lparr>counter := bump ops k 0 (counter s)\<rparr>)"
  by (cases ops) (simp_all add: wp_def count_mul_def bump_def)

lemma zip_loop_spec:
  assumes dims: "rows B = rows A" "cols B = cols A" "rows Out = rows A" "cols Out = cols A"
  shows "wp (zip_loop T ops f A B Out)
     (\<lambda>_ t. touches ops 0 (of_nat (rows A * cols A)) (cells T Out) s t
        \<and> (writes_apart T Out (cells T A \<union> cells T B) \<longrightarrow>
            (\<forall>i<rows A. \<forall>j<cols A. heap t (elem_addr T Out i j)
               = f (heap s (elem_addr T A i j)) (heap s (elem_addr T B i j)))))
     E s"
proof -
  define r c where "r = rows A" and "c = cols A"
  define ok where "ok = writes_apart T Out (cells T A \<union> cells T B)"
  define val where "val = (\<lambda>i j. f (heap s (elem_addr T A i j)) (heap s (elem_addr T B i j)))"
  define J where "J = (\<lambda>k t. touches ops 0 (of_nat k) (cells T Out) s t
      \<and> (ok \<longrightarrow> (\<forall>i j. i < r \<longrightarrow> j < c \<longrightarrow> i * c + j < k \<longrightarrow> heap t (elem_addr T Out i j) = val i j)))"
  have J0: "J 0 s" by (simp add: J_def touches_refl)
  have step: "wp (bnd (view_get T A i j) (\<lambda>a. bnd (view_get T B i j) (\<lambda>b.
        bnd (view_set T Out i j (f a b)) (\<lambda>_. count_add ops 1))))
      (\<lambda>_. J (Suc (i * c + j))) E t"
    if i: "i < r" and j: "j < c" and Jt: "J (i * c + j) t" for i j t
  proof -
    let ?a = "elem_addr T Out i j"
    let ?v = "f (heap t (elem_addr T A i j)) (heap t (elem_addr T B i j))"
    let ?t' = "t\<lparr>heap := (heap t)(?a := ?v), counter := bump ops 0 1 (counter t)\<rparr>"
    have tch: "touches ops 0 (of_nat (i * c + j)) (cells T Out) s t"
      using Jt by (simp add: J_def)
    have ain: "?a \<in> cells T Out" using i j dims by (simp add: elem_addr_in_cells r_def c_def)
    have t1: "touches ops 0 (of_nat (Suc (i * c + j))) (cells T Out) s ?t'"
      using tch ain by (auto simp: touches_def add.commute)
    have t2: "heap ?t' (elem_addr T Out i' j') = val i' j'"
      if ok: ok and i': "i' < r" and j': "j' < c" and lt: "i' * c + j' < Suc (i * c + j)" for i' j'
    proof (cases "i' = i \<and> j' = j")
      case True
      have "elem_addr T A i j \<notin> cells T Out" "elem_addr T B i j \<notin> cells T Out"
        using ok i j dims elem_addr_in_cells[of i A j T] elem_addr_in_cells[of i B j T]
        by (auto simp: ok_def writes_apart_def r_def c_def)
      then have "heap t (elem_addr T A i j) = heap s (elem_addr T A i j)"
        "heap t (elem_addr T B i j) = heap s (elem_addr T B i j)"
        using tch by (simp_all add: touches_def)
      with True show ?thesis by (simp add: val_def)
    next
      case False
      then have "i' * c + j' \<noteq> i * c + j" using lin_index_unique[of i' c j' i j] j j' by blast
      then have old: "heap t (elem_addr T Out i' j') = val i' j'"
        using Jt ok i' j' lt by (simp add: J_def)
      have "elem_addr T Out i' j' \<noteq> ?a"
        using False ok i j i' j' dims by (auto simp: ok_def writes_apart_def inj_view_def r_def c_def)
      with old show ?thesis by simp
    qed
    have "J (Suc (i * c + j)) ?t'" using t1 t2 unfolding J_def by blast
    then show ?thesis
      using i j dims by (simp add: wp_bnd wp_view_get wp_view_set wp_count_add r_def c_def)
  qed
  have "wp (zip_loop T ops f A B Out) (\<lambda>_. J (r * c)) E s"
    unfolding zip_loop_def r_def[symmetric] c_def[symmetric]
    by (rule wp_for_loop2[where J = J, OF J0 step])
  then show ?thesis
  proof (rule wp_cons)
    fix v t assume "J (r * c) t"
    then show "touches ops 0 (of_nat (rows A * cols A)) (cells T Out) s t
        \<and> (writes_apart T Out (cells T A \<union> cells T B) \<longrightarrow>
            (\<forall>i<rows A. \<forall>j<cols A. heap t (elem_addr T Out i j)
               = f (heap s (elem_addr T A i j)) (heap s (elem_addr T B i j))))"
      unfolding J_def ok_def val_def r_def c_def
      by (simp add: lin_index_less)
  qed simp
qed

lemma wp_eq_fun: "f s = g s \<Longrightarrow> wp f Q E s = wp g Q E s"
  by (simp add: wp_def)

lemma wp_DoneD: "wp m Q (\<lambda>_ _. False) s \<Longrightarrow> \<exists>v t. m s = Done v t \<and> Q v t"
  by (cases "m s") (simp_all add: wp_def)

lemma mat_add_spec:
  assumes "rows B = rows A" "cols B = cols A" "rows Out = rows A" "cols Out = cols A"
  shows "wp (mat_add T ops A B Out)
     (\<lambda>_ t. touches ops 0 (of_nat (rows A * cols A)) (cells T Out) s t
        \<and> (writes_apart T Out (cells T A \<union> cells T B) \<longrightarrow>
            (\<forall>i<rows A. \<forall>j<cols A. heap t (elem_addr T Out i j)
               = heap s (elem_addr T A i j) + heap s (elem_addr T B i j))))
     E s"
proof -
  have "mat_add T ops A B Out s = zip_loop T ops (+) A B Out s"
    using assms by (simp add: mat_add_def zip_loop_def)
  then show ?thesis
    using zip_loop_spec[OF assms, of T ops "(+)" s E] by (simp add: wp_def)
qed

lemma mat_sub_spec:
  assumes "rows B = rows A" "cols B = cols A" "rows Out = rows A" "cols Out = cols A"
  shows "wp (mat_sub T ops A B Out)
     (\<lambda>_ t. touches ops 0 (of_nat (rows A * cols A)) (cells T Out) s t
        \<and> (writes_apart T Out (cells T A \<union> cells T B) \<longrightarrow>
            (\<forall>i<rows A. \<forall>j<cols A. heap t (elem_addr T Out i j)
               = heap s (elem_addr T A i j) - heap s (elem_addr T B i j))))
     E s"
proof -
  have "mat_sub T ops A B Out s = zip_loop T ops (-) A B Out s"
    using assms by (simp add: mat_sub_def zip_loop_def)
  then show ?thesis
    using zip_loop_spec[OF assms, of T ops "(-)" s E] by (simp add: wp_def)
qed

lemma for_acc_append:
  "for_acc (xs @ [x]) body v s =
     (case for_acc xs body v s of Done w t \<Rightarrow> body x w t | Fail e t \<Rightarrow> Fail e t)"
  by (induction xs arbitrary: v s) (auto split: result.splits)

lemma view_get_ok:
  "r < rows V \<Longrightarrow> c < cols V \<Longrightarrow> view_get T V r c s = Done (heap s (elem_addr T V r c)) s"
  by (simp add: view_get_def)

lemma view_set_ok:
  "r < rows V \<Longrightarrow> c < cols V \<Longrightarrow>
   view_set T V r c v s = Done () (s\<lparr>heap := (heap s)(elem_addr T V r c := v)\<rparr>)"
  by (simp add: view_set_def)

lemma count_mul_eq: "count_mul ops k s = Done () (s\<lparr>counter := bump ops k 0 (counter s)\<rparr>)"
  by (cases ops) (simp_all add: count_mul_def bump_def)

lemma count_add_eq: "count_add ops k s = Done () (s\<lparr>counter := bump ops 0 k (counter s)\<rparr>)"
  by (cases ops) (simp_all add: count_add_def bump_def)

lemma bnd_Done: "m s = Done v t \<Longrightarrow> bnd m f s = f v t"
  by (simp add: bnd_def)

lemma dot_step_eq:
  assumes "i < rows A" "j < cols B" "p < cols A" "p < rows B"
  shows "dot_step T ops A B i j p acc s
    = Done (acc + heap s (elem_addr T A i p) * heap s (elem_addr T B p j))
        (s\<lparr>counter := bump ops 1 1 (counter s)\<rparr>)"
  using assms
  by (simp add: dot_step_def bnd_def view_get_ok count_mul_eq count_add_eq)

lemma naive_sum_loop:
  assumes "i < rows A" "j < cols B" "1 \<le> k" "k \<le> cols A" "k \<le> rows B"
  shows "for_acc [1..<k] (dot_step T ops A B i j) v s
     = Done (v + (\<Sum>p = 1..<k. heap s (elem_addr T A i p) * heap s (elem_addr T B p j)))
         (s\<lparr>counter := bump ops (of_nat (k - 1)) (of_nat (k - 1)) (counter s)\<rparr>)"
  using assms(3,4,5)
proof (induction k rule: nat_induct_at_least)
  case base
  then show ?case by simp
next
  case (Suc n)
  have up: "[1..<Suc n] = [1..<n] @ [n]" using Suc.hyps by simp
  have ih: "for_acc [1..<n] (dot_step T ops A B i j) v s
     = Done (v + (\<Sum>p = 1..<n. heap s (elem_addr T A i p) * heap s (elem_addr T B p j)))
         (s\<lparr>counter := bump ops (of_nat (n - 1)) (of_nat (n - 1)) (counter s)\<rparr>)"
    using Suc by simp
  have n: "n < cols A" "n < rows B" using Suc.prems by simp_all
  have w: "(of_nat (n - 1) :: 64 word) + 1 = of_nat n" using Suc.hyps
    by (cases n) simp_all
  show ?case
    unfolding up for_acc_append ih
    using Suc.hyps
    by (simp add: dot_step_eq[OF assms(1,2) n] w add.assoc del: upt_Suc)
qed

lemma naive_cell_spec:
  assumes "i < rows A" "j < cols B" "cols A = k" "rows B = k" "rows C = rows A" "cols C = cols B"
  shows "naive_cell T ops A B C k i j t =
    Done () (t\<lparr>heap := (heap t)(elem_addr T C i j :=
                 (\<Sum>p<k. heap t (elem_addr T A i p) * heap t (elem_addr T B p j))),
              counter := bump ops (of_nat k) (of_nat (k - 1)) (counter t)\<rparr>)"
proof (cases "k = 0")
  case True
  then show ?thesis using assms by (simp add: naive_cell_def view_set_def)
next
  case False
  then have k: "1 \<le> k" "0 < k" by simp_all
  let ?g = "\<lambda>p. heap t (elem_addr T A i p) * heap t (elem_addr T B p j)"
  let ?t1 = "t\<lparr>counter := bump ops 1 0 (counter t)\<rparr>"
  have sum: "(\<Sum>p<k. ?g p) = ?g 0 + (\<Sum>p = 1..<k. ?g p)"
    using k by (simp add: lessThan_atLeast0 sum.atLeast_Suc_lessThan)
  have g1: "view_get T A i 0 t = Done (heap t (elem_addr T A i 0)) t"
    using assms k by (simp add: view_get_ok)
  have g2: "view_get T B 0 j t = Done (heap t (elem_addr T B 0 j)) t"
    using assms k by (simp add: view_get_ok)
  have loop: "for_acc [1..<k] (dot_step T ops A B i j) (?g 0) ?t1
     = Done (?g 0 + (\<Sum>p = 1..<k. ?g p))
         (?t1\<lparr>counter := bump ops (of_nat (k - 1)) (of_nat (k - 1)) (counter ?t1)\<rparr>)"
    using naive_sum_loop[of i A j B k T ops "?g 0" ?t1] assms k by simp
  have w: "1 + (of_nat (k - Suc 0) :: 64 word) = of_nat k" using k
    by (cases k) simp_all
  have "naive_cell T ops A B C k i j t
      = bnd (for_acc [1..<k] (dot_step T ops A B i j) (?g 0)) (\<lambda>sum. view_set T C i j sum) ?t1"
    using False unfolding naive_cell_def dot_step_def
    by (simp add: bnd_def g1 g2 count_mul_eq del: upt_Suc)
  also have "\<dots> = view_set T C i j (?g 0 + (\<Sum>p = 1..<k. ?g p))
         (?t1\<lparr>counter := bump ops (of_nat (k - 1)) (of_nat (k - 1)) (counter ?t1)\<rparr>)"
    by (simp only: bnd_def loop result.case)
  finally show ?thesis
    unfolding sum using assms by (simp add: view_set_ok w)
qed

lemma gemm_naive_spec:
  assumes dims: "cols A = rows B" "rows C = rows A" "cols C = cols B"
  shows "wp (gemm_naive T ops A B C)
     (\<lambda>_ t. touches ops (of_nat (rows A * cols B * cols A)) (of_nat (rows A * cols B * (cols A - 1)))
               (cells T C) s t
        \<and> (writes_apart T C (cells T A \<union> cells T B) \<longrightarrow>
            (\<forall>i<rows A. \<forall>j<cols B. heap t (elem_addr T C i j)
               = (\<Sum>p<cols A. heap s (elem_addr T A i p) * heap s (elem_addr T B p j)))))
     E s"
proof -
  define r c k where "r = rows A" and "c = cols B" and "k = cols A"
  have shp: "rows A = r" "cols B = c" "cols A = k" "rows B = k" "rows C = r" "cols C = c"
    using dims by (simp_all add: r_def c_def k_def)
  define ok where "ok = writes_apart T C (cells T A \<union> cells T B)"
  define val where "val = (\<lambda>i j. \<Sum>p<k. heap s (elem_addr T A i p) * heap s (elem_addr T B p j))"
  define J where "J = (\<lambda>n t. touches ops (of_nat n * of_nat k) (of_nat n * of_nat (k - 1)) (cells T C) s t
      \<and> (ok \<longrightarrow> (\<forall>i j. i < r \<longrightarrow> j < c \<longrightarrow> i * c + j < n \<longrightarrow> heap t (elem_addr T C i j) = val i j)))"
  have J0: "J 0 s" by (simp add: J_def touches_refl)
  have step: "wp (naive_cell T ops A B C k i j) (\<lambda>_. J (Suc (i * c + j))) E t"
    if i: "i < r" and j: "j < c" and Jt: "J (i * c + j) t" for i j t
  proof -
    let ?a = "elem_addr T C i j"
    define v where "v = (\<Sum>p<k. heap t (elem_addr T A i p) * heap t (elem_addr T B p j))"
    define t' where "t' = t\<lparr>heap := (heap t)(?a := v), counter := bump ops (of_nat k) (of_nat (k - 1)) (counter t)\<rparr>"
    have run: "naive_cell T ops A B C k i j t = Done () t'"
      unfolding t'_def v_def
      by (rule naive_cell_spec) (simp_all add: shp i j)
    have tch: "touches ops (of_nat (i * c + j) * of_nat k) (of_nat (i * c + j) * of_nat (k - 1)) (cells T C) s t"
      using Jt by (simp add: J_def)
    have ain: "?a \<in> cells T C" using i j by (simp add: elem_addr_in_cells shp)
    have e1: "(of_nat (Suc n) :: 64 word) * w = of_nat n * w + w" for n w
      by (simp add: distrib_right)
    have t1: "touches ops (of_nat (Suc (i * c + j)) * of_nat k) (of_nat (Suc (i * c + j)) * of_nat (k - 1)) (cells T C) s t'"
      unfolding e1 t'_def using tch ain by (simp add: touches_def)
    have t2: "heap t' (elem_addr T C i' j') = val i' j'"
      if ok: ok and i': "i' < r" and j': "j' < c" and lt: "i' * c + j' < Suc (i * c + j)" for i' j'
    proof (cases "i' = i \<and> j' = j")
      case True
      have "elem_addr T A i p \<in> cells T A" "elem_addr T B p j \<in> cells T B" if "p < k" for p
        using that i j by (simp_all add: elem_addr_in_cells shp)
      then have "elem_addr T A i p \<notin> cells T C" "elem_addr T B p j \<notin> cells T C" if "p < k" for p
        using ok that unfolding ok_def writes_apart_def by blast+
      then have "heap t (elem_addr T A i p) = heap s (elem_addr T A i p)"
        "heap t (elem_addr T B p j) = heap s (elem_addr T B p j)" if "p < k" for p
        using tch that by (simp_all add: touches_def)
      then have "v = val i j" by (simp add: v_def val_def)
      with True show ?thesis by (simp add: t'_def)
    next
      case False
      then have "i' * c + j' \<noteq> i * c + j" using lin_index_unique[of i' c j' i j] j j' by blast
      then have old: "heap t (elem_addr T C i' j') = val i' j'"
        using Jt ok i' j' lt by (simp add: J_def)
      have "inj_view T C" using ok by (simp add: ok_def writes_apart_def)
      then have "elem_addr T C i' j' \<noteq> ?a"
        using False i j i' j' unfolding inj_view_def shp by blast
      with old show ?thesis by (simp add: t'_def)
    qed
    have "J (Suc (i * c + j)) t'" using t1 t2 unfolding J_def by blast
    then show ?thesis by (simp add: wp_def run)
  qed
  have "gemm_naive T ops A B C s
      = for_loop 0 r (\<lambda>i. for_loop 0 c (\<lambda>j. naive_cell T ops A B C k i j)) s"
    by (simp add: gemm_naive_def gemm_naive_impl_def shp)
  moreover have "wp (for_loop 0 r (\<lambda>i. for_loop 0 c (\<lambda>j. naive_cell T ops A B C k i j))) (\<lambda>_. J (r * c)) E s"
    by (rule wp_for_loop2[where J = J, OF J0 step])
  ultimately have "wp (gemm_naive T ops A B C) (\<lambda>_. J (r * c)) E s"
    by (simp add: wp_def)
  then show ?thesis
    unfolding shp
  proof (rule wp_cons)
    fix v t assume "J (r * c) t"
    then show "touches ops (of_nat (r * c * k)) (of_nat (r * c * (k - 1)))
               (cells T C) s t
        \<and> (writes_apart T C (cells T A \<union> cells T B) \<longrightarrow>
            (\<forall>i<r. \<forall>j<c. heap t (elem_addr T C i j)
               = (\<Sum>p<k. heap s (elem_addr T A i p) * heap s (elem_addr T B p j))))"
      unfolding J_def ok_def val_def
      by (simp add: lin_index_less)
  qed simp
qed

lemma gemm_naive_bad_dims:
  assumes "\<not> (cols A = rows B \<and> rows C = rows A \<and> cols C = cols B)"
  shows "\<exists>msg. gemm_naive T ops A B C s = Fail (InvalidArgument msg) s"
proof (cases "cols A = rows B")
  case False
  then have "gemm_naive T ops A B C s = Fail (InvalidArgument ''gemm_naive: A.cols != B.rows'') s"
    unfolding gemm_naive_def gemm_naive_impl_def by (rule if_P)
  then show ?thesis by blast
next
  case True
  then have c2: "rows C \<noteq> rows A \<or> cols C \<noteq> cols B" using assms by blast
  have "gemm_naive T ops A B C s = Fail (InvalidArgument ''gemm_naive: C dims mismatch'') s"
    unfolding gemm_naive_def gemm_naive_impl_def
    apply (subst if_not_P)
     apply (simp add: True)
    apply (rule if_P)
    apply (rule c2)
    done
  then show ?thesis by blast
qed

lemma combine_cell_eq:
  assumes "i < m" "j < m"
    and "rows M1 = m" "cols M1 = m" "rows M2 = m" "cols M2 = m" "rows M3 = m" "cols M3 = m"
    and "rows M4 = m" "cols M4 = m" "rows M5 = m" "cols M5 = m" "rows M6 = m" "cols M6 = m"
    and "rows M7 = m" "cols M7 = m"
    and "rows C11 = m" "cols C11 = m" "rows C12 = m" "cols C12 = m"
    and "rows C21 = m" "cols C21 = m" "rows C22 = m" "cols C22 = m"
  shows "combine_cell T ops M1 M2 M3 M4 M5 M6 M7 C11 C12 C21 C22 i j t =
    Done () (t\<lparr>heap := (heap t)
        (elem_addr T C11 i j := heap t (elem_addr T M1 i j) + heap t (elem_addr T M4 i j)
                                - heap t (elem_addr T M5 i j) + heap t (elem_addr T M7 i j),
         elem_addr T C12 i j := heap t (elem_addr T M3 i j) + heap t (elem_addr T M5 i j),
         elem_addr T C21 i j := heap t (elem_addr T M2 i j) + heap t (elem_addr T M4 i j),
         elem_addr T C22 i j := heap t (elem_addr T M1 i j) - heap t (elem_addr T M2 i j)
                                + heap t (elem_addr T M3 i j) + heap t (elem_addr T M6 i j)),
       counter := bump ops 0 8 (counter t)\<rparr>)"
  unfolding combine_cell_def
  using assms
  by (simp add: bnd_def view_get_ok view_set_ok count_add_eq Let_def)

lemma combine_spec:
  assumes shp: "rows M1 = m" "cols M1 = m" "rows M2 = m" "cols M2 = m" "rows M3 = m" "cols M3 = m"
     "rows M4 = m" "cols M4 = m" "rows M5 = m" "cols M5 = m" "rows M6 = m" "cols M6 = m"
     "rows M7 = m" "cols M7 = m"
     "rows C11 = m" "cols C11 = m" "rows C12 = m" "cols C12 = m"
     "rows C21 = m" "cols C21 = m" "rows C22 = m" "cols C22 = m"
  shows "wp (for_loop 0 m (\<lambda>i. for_loop 0 m (\<lambda>j.
            combine_cell T ops M1 M2 M3 M4 M5 M6 M7 C11 C12 C21 C22 i j)))
     (\<lambda>_ t. touches ops 0 (of_nat (8 * (m * m)))
               (cells T C11 \<union> cells T C12 \<union> cells T C21 \<union> cells T C22) s t
        \<and> (quad_apart T C11 C12 C21 C22
              (cells T M1 \<union> cells T M2 \<union> cells T M3 \<union> cells T M4 \<union> cells T M5 \<union> cells T M6 \<union> cells T M7) \<longrightarrow>
            (\<forall>i<m. \<forall>j<m.
               heap t (elem_addr T C11 i j)
                 = heap s (elem_addr T M1 i j) + heap s (elem_addr T M4 i j)
                   - heap s (elem_addr T M5 i j) + heap s (elem_addr T M7 i j)
             \<and> heap t (elem_addr T C12 i j)
                 = heap s (elem_addr T M3 i j) + heap s (elem_addr T M5 i j)
             \<and> heap t (elem_addr T C21 i j)
                 = heap s (elem_addr T M2 i j) + heap s (elem_addr T M4 i j)
             \<and> heap t (elem_addr T C22 i j)
                 = heap s (elem_addr T M1 i j) - heap s (elem_addr T M2 i j)
                   + heap s (elem_addr T M3 i j) + heap s (elem_addr T M6 i j))))
     E s"
proof -
  define W where "W = cells T C11 \<union> cells T C12 \<union> cells T C21 \<union> cells T C22"
  define R where "R = cells T M1 \<union> cells T M2 \<union> cells T M3 \<union> cells T M4 \<union> cells T M5 \<union> cells T M6 \<union> cells T M7"
  define ok where "ok = quad_apart T C11 C12 C21 C22 R"
  define v11 where "v11 = (\<lambda>h i j. h (elem_addr T M1 i j) + h (elem_addr T M4 i j)
                                - h (elem_addr T M5 i j) + (h (elem_addr T M7 i j) :: 'a))"
  define v12 where "v12 = (\<lambda>h i j. h (elem_addr T M3 i j) + (h (elem_addr T M5 i j) :: 'a))"
  define v21 where "v21 = (\<lambda>h i j. h (elem_addr T M2 i j) + (h (elem_addr T M4 i j) :: 'a))"
  define v22 where "v22 = (\<lambda>h i j. h (elem_addr T M1 i j) - h (elem_addr T M2 i j)
                                + h (elem_addr T M3 i j) + (h (elem_addr T M6 i j) :: 'a))"
  define done_at where "done_at = (\<lambda>h i j.
        h (elem_addr T C11 i j) = v11 (heap s) i j \<and> h (elem_addr T C12 i j) = v12 (heap s) i j
      \<and> h (elem_addr T C21 i j) = v21 (heap s) i j \<and> h (elem_addr T C22 i j) = v22 (heap s) i j)"
  define J where "J = (\<lambda>k t. touches ops 0 (of_nat k * 8) W s t
      \<and> (ok \<longrightarrow> (\<forall>i j. i < m \<longrightarrow> j < m \<longrightarrow> i * m + j < k \<longrightarrow> done_at (heap t) i j)))"
  have J0: "J 0 s" by (simp add: J_def touches_refl)
  have inW: "elem_addr T C11 i j \<in> W" "elem_addr T C12 i j \<in> W"
      "elem_addr T C21 i j \<in> W" "elem_addr T C22 i j \<in> W"
    if "i < m" "j < m" for i j
    using that shp by (simp_all add: W_def elem_addr_in_cells)
  have inC: "elem_addr T C11 i j \<in> cells T C11" "elem_addr T C12 i j \<in> cells T C12"
      "elem_addr T C21 i j \<in> cells T C21" "elem_addr T C22 i j \<in> cells T C22"
    if "i < m" "j < m" for i j
    using that shp by (simp_all add: elem_addr_in_cells)
  have inR: "elem_addr T M1 i j \<in> R" "elem_addr T M2 i j \<in> R" "elem_addr T M3 i j \<in> R"
      "elem_addr T M4 i j \<in> R" "elem_addr T M5 i j \<in> R" "elem_addr T M6 i j \<in> R"
      "elem_addr T M7 i j \<in> R"
    if "i < m" "j < m" for i j
    using that shp by (simp_all add: R_def elem_addr_in_cells)
  have step: "wp (combine_cell T ops M1 M2 M3 M4 M5 M6 M7 C11 C12 C21 C22 i j)
      (\<lambda>_. J (Suc (i * m + j))) E t"
    if i: "i < m" and j: "j < m" and Jt: "J (i * m + j) t" for i j t
  proof -
    define a11 a12 a21 a22 where "a11 = elem_addr T C11 i j" and "a12 = elem_addr T C12 i j"
      and "a21 = elem_addr T C21 i j" and "a22 = elem_addr T C22 i j"
    define t' where "t' = t\<lparr>heap := (heap t)
        (a11 := v11 (heap t) i j, a12 := v12 (heap t) i j,
         a21 := v21 (heap t) i j, a22 := v22 (heap t) i j),
       counter := bump ops 0 8 (counter t)\<rparr>"
    have run: "combine_cell T ops M1 M2 M3 M4 M5 M6 M7 C11 C12 C21 C22 i j t = Done () t'"
      unfolding t'_def a11_def a12_def a21_def a22_def v11_def v12_def v21_def v22_def
      by (rule combine_cell_eq[OF i j shp])
    have tch: "touches ops 0 (of_nat (i * m + j) * 8) W s t"
      using Jt by (simp add: J_def)
    have aW: "a11 \<in> W" "a12 \<in> W" "a21 \<in> W" "a22 \<in> W"
      using inW[OF i j] by (simp_all add: a11_def a12_def a21_def a22_def)
    have e1: "(of_nat (Suc n) :: 64 word) * w = of_nat n * w + w" for n w
      by (simp add: distrib_right)
    have t1: "touches ops 0 (of_nat (Suc (i * m + j)) * 8) W s t'"
      unfolding e1 t'_def using tch aW by (simp add: touches_def)
    have t2: "done_at (heap t') i' j'"
      if ok: ok and i': "i' < m" and j': "j' < m" and lt: "i' * m + j' < Suc (i * m + j)" for i' j'
    proof -
      have WR: "W \<inter> R = {}" using ok by (simp add: ok_def quad_apart_def W_def)
      have dj: "cells T C11 \<inter> cells T C12 = {}" "cells T C11 \<inter> cells T C21 = {}"
          "cells T C11 \<inter> cells T C22 = {}" "cells T C12 \<inter> cells T C21 = {}"
          "cells T C12 \<inter> cells T C22 = {}" "cells T C21 \<inter> cells T C22 = {}"
        using ok by (simp_all add: ok_def quad_apart_def)
      have aC: "a11 \<in> cells T C11" "a12 \<in> cells T C12" "a21 \<in> cells T C21" "a22 \<in> cells T C22"
        using inC[OF i j] by (simp_all add: a11_def a12_def a21_def a22_def)
      have ne: "a11 \<noteq> a12" "a11 \<noteq> a21" "a11 \<noteq> a22" "a12 \<noteq> a21" "a12 \<noteq> a22" "a21 \<noteq> a22"
        using aC dj by blast+
      show ?thesis
      proof (cases "i' = i \<and> j' = j")
        case True
        have rd: "heap t x = heap s x" if "x \<in> R" for x
          using tch WR that by (auto simp: touches_def)
        have "v11 (heap t) i j = v11 (heap s) i j" "v12 (heap t) i j = v12 (heap s) i j"
          "v21 (heap t) i j = v21 (heap s) i j" "v22 (heap t) i j = v22 (heap s) i j"
          using inR[OF i j] by (simp_all add: v11_def v12_def v21_def v22_def rd)
        with True ne show ?thesis
          by (simp add: done_at_def t'_def a11_def[symmetric] a12_def[symmetric]
                a21_def[symmetric] a22_def[symmetric])
      next
        case False
        then have "i' * m + j' \<noteq> i * m + j" using lin_index_unique[of i' m j' i j] j j' by blast
        then have old: "done_at (heap t) i' j'"
          using Jt ok i' j' lt by (simp add: J_def)
        define b11 b12 b21 b22 where "b11 = elem_addr T C11 i' j'" and "b12 = elem_addr T C12 i' j'"
          and "b21 = elem_addr T C21 i' j'" and "b22 = elem_addr T C22 i' j'"
        have bC: "b11 \<in> cells T C11" "b12 \<in> cells T C12" "b21 \<in> cells T C21" "b22 \<in> cells T C22"
          using inC[OF i' j'] by (simp_all add: b11_def b12_def b21_def b22_def)
        have inj: "inj_view T C11" "inj_view T C12" "inj_view T C21" "inj_view T C22"
          using ok by (simp_all add: ok_def quad_apart_def)
        have same: "b11 \<noteq> a11" "b12 \<noteq> a12" "b21 \<noteq> a21" "b22 \<noteq> a22"
          using False i j i' j' inj shp
          unfolding inj_view_def a11_def a12_def a21_def a22_def b11_def b12_def b21_def b22_def
          by metis+
        have other: "b11 \<noteq> a12" "b11 \<noteq> a21" "b11 \<noteq> a22" "b12 \<noteq> a11" "b12 \<noteq> a21" "b12 \<noteq> a22"
            "b21 \<noteq> a11" "b21 \<noteq> a12" "b21 \<noteq> a22" "b22 \<noteq> a11" "b22 \<noteq> a12" "b22 \<noteq> a21"
          using aC bC dj by blast+
        have "heap t' b11 = heap t b11" "heap t' b12 = heap t b12"
          "heap t' b21 = heap t b21" "heap t' b22 = heap t b22"
          using same other by (simp_all add: t'_def)
        with old show ?thesis
          by (simp add: done_at_def b11_def b12_def b21_def b22_def)
      qed
    qed
    have "J (Suc (i * m + j)) t'" using t1 t2 unfolding J_def by blast
    then show ?thesis by (simp add: wp_def run)
  qed
  have "wp (for_loop 0 m (\<lambda>i. for_loop 0 m (\<lambda>j.
            combine_cell T ops M1 M2 M3 M4 M5 M6 M7 C11 C12 C21 C22 i j))) (\<lambda>_. J (m * m)) E s"
    by (rule wp_for_loop2[where J = J, OF J0 step])
  then show ?thesis
  proof (rule wp_cons)
    fix v t assume Jm: "J (m * m) t"
    have "touches ops 0 (of_nat (8 * (m * m))) W s t"
      using Jm by (simp add: J_def mult.commute)
    moreover have "done_at (heap t) i j" if ok "i < m" "j < m" for i j
      using Jm that by (simp add: J_def lin_index_less)
    ultimately show "touches ops 0 (of_nat (8 * (m * m)))
               (cells T C11 \<union> cells T C12 \<union> cells T C21 \<union> cells T C22) s t
        \<and> (quad_apart T C11 C12 C21 C22
              (cells T M1 \<union> cells T M2 \<union> cells T M3 \<union> cells T M4 \<union> cells T M5 \<union> cells T M6 \<union> cells T M7) \<longrightarrow>
            (\<forall>i<m. \<forall>j<m.
               heap t (elem_addr T C11 i j)
                 = heap s (elem_addr T M1 i j) + heap s (elem_addr T M4 i j)
                   - heap s (elem_addr T M5 i j) + heap s (elem_addr T M7 i j)
             \<and> heap t (elem_addr T C12 i j)
                 = heap s (elem_addr T M3 i j) + heap s (elem_addr T M5 i j)
             \<and> heap t (elem_addr T C21 i j)
                 = heap s (elem_addr T M2 i j) + heap s (elem_addr T M4 i j)
             \<and> heap t (elem_addr T C22 i j)
                 = heap s (elem_addr T M1 i j) - heap s (elem_addr T M2 i j)
                   + heap s (elem_addr T M3 i j) + heap s (elem_addr T M6 i j)))"
      unfolding W_def[symmetric] R_def[symmetric] ok_def[symmetric]
      by (simp add: done_at_def v11_def v12_def v21_def v22_def)
  qed simp
qed

lemma align_up_ge: "0 < a \<Longrightarrow> x \<le> align_up x a"
proof -
  assume a: "0 < a"
  have "(x + (a - 1)) mod a < a" using a by simp
  then have "(x + (a - 1)) mod a \<le> a - 1" by linarith
  then show ?thesis by (simp add: align_up_def)
qed

lemma scratch_align_pos: "0 < max kScratchAlignmentBytes (alignof_T T)"
  by (simp add: kScratchAlignmentBytes_def)

lemma next_off_ge: "off \<le> next_off T m off"
  using align_up_ge[OF scratch_align_pos, of off T] by (simp add: next_off_def)

lemma next_off_pow_ge: "off \<le> (next_off T m ^^ k) off"
proof (induction k)
  case 0
  then show ?case by simp
next
  case (Suc k)
  then show ?case using next_off_ge[of "(next_off T m ^^ k) off" T m] by simp
qed

lemma next_off_pow_mono: "j \<le> k \<Longrightarrow> (next_off T m ^^ j) off \<le> (next_off T m ^^ k) off"
proof (induction k)
  case 0
  then show ?case by simp
next
  case (Suc k)
  show ?case
  proof (cases "j = Suc k")
    case True
    then show ?thesis by simp
  next
    case False
    then have "(next_off T m ^^ j) off \<le> (next_off T m ^^ k) off" using Suc by simp
    also have "\<dots> \<le> (next_off T m ^^ Suc k) off"
      using next_off_ge[of "(next_off T m ^^ k) off" T m] by simp
    finally show ?thesis .
  qed
qed

lemma usage_ge: "off \<le> usage T leaf n off"
proof (induction T leaf n off rule: usage.induct)
  case (1 T leaf n off)
  show ?case
  proof (cases "n = 0 \<or> n \<le> leaf \<or> n mod 2 \<noteq> 0")
    case True
    then show ?thesis by (subst usage.simps) simp
  next
    case False
    have "off \<le> (next_off T (n div 2) ^^ 9) off" by (rule next_off_pow_ge)
    also have "\<dots> \<le> usage T leaf (n div 2) ((next_off T (n div 2) ^^ 9) off)"
      using 1 False by blast
    finally show ?thesis using False by (subst usage.simps) simp
  qed
qed

lemma wp_arena_alloc:
  assumes "0 < m"
  shows "wp (arena_alloc T m m) Q E s =
     (if next_off T m (off_bytes (arena s)) \<le> cap_bytes (arena s)
      then Q (scratch_view T m (buf (arena s)) (off_bytes (arena s))) (alloc_step T m s)
      else E BadAlloc s)"
  using assms
  by (simp add: wp_def arena_alloc_def alloc_matrix_def Let_def next_off_def scratch_view_def
        alloc_step_def not_le)

lemma alloc_step_pow:
  "(alloc_step T m ^^ k) s =
     s\<lparr>arena := (arena s)\<lparr>off_bytes := (next_off T m ^^ k) (off_bytes (arena s))\<rparr>,
       peak_bytes := (if k = 0 then peak_bytes s
                      else max (peak_bytes s) ((next_off T m ^^ k) (off_bytes (arena s))))\<rparr>"
proof (induction k)
  case 0
  then show ?case by simp
next
  case (Suc k)
  have ge: "(next_off T m ^^ k) (off_bytes (arena s)) \<le> next_off T m ((next_off T m ^^ k) (off_bytes (arena s)))"
    by (rule next_off_ge)
  have "(alloc_step T m ^^ Suc k) s = alloc_step T m ((alloc_step T m ^^ k) s)" by simp
  also have "\<dots> = alloc_step T m
     (s\<lparr>arena := (arena s)\<lparr>off_bytes := (next_off T m ^^ k) (off_bytes (arena s))\<rparr>,
       peak_bytes := (if k = 0 then peak_bytes s
                      else max (peak_bytes s) ((next_off T m ^^ k) (off_bytes (arena s))))\<rparr>)"
    by (simp only: Suc)
  also have "\<dots> = s\<lparr>arena := (arena s)\<lparr>off_bytes := (next_off T m ^^ Suc k) (off_bytes (arena s))\<rparr>,
       peak_bytes := (if Suc k = 0 then peak_bytes s
                      else max (peak_bytes s) ((next_off T m ^^ Suc k) (off_bytes (arena s))))\<rparr>"
    using ge by (simp add: alloc_step_def max_def)
  finally show ?case .
qed

lemma subview_quadrant:
  "r0 + m \<le> rows V \<Longrightarrow> c0 + m \<le> cols V \<Longrightarrow> subview T V r0 c0 m m = Inr (quadrant T V r0 c0 m)"
  by (simp add: subview_def quadrant_def)

lemma quadrant_simps [simp]:
  "rows (quadrant T V r0 c0 m) = m" "cols (quadrant T V r0 c0 m) = m"
  "stride (quadrant T V r0 c0 m) = stride V"
  by (simp_all add: quadrant_def)

lemma elem_addr_quadrant:
  "elem_addr T (quadrant T V r0 c0 m) i j = elem_addr T V (r0 + i) (c0 + j)"
  by (simp add: elem_addr_def quadrant_def algebra_simps)

lemma cells_quadrant:
  assumes "r0 + m \<le> rows V" "c0 + m \<le> cols V"
  shows "cells T (quadrant T V r0 c0 m) \<subseteq> cells T V"
proof
  fix x assume "x \<in> cells T (quadrant T V r0 c0 m)"
  then obtain i j where ij: "i < m" "j < m" and x: "x = elem_addr T (quadrant T V r0 c0 m) i j"
    by (auto simp: cells_def)
  have "r0 + i < rows V" "c0 + j < cols V" using ij assms by simp_all
  then show "x \<in> cells T V" unfolding x elem_addr_quadrant by (rule elem_addr_in_cells)
qed

lemma scratch_view_simps [simp]:
  "rows (scratch_view T m b off) = m" "cols (scratch_view T m b off) = m"
  "stride (scratch_view T m b off) = m"
  by (simp_all add: scratch_view_def)

lemma same_view: "rows V = m \<Longrightarrow> cols V = m \<Longrightarrow>
    \<lparr>data = data V, rows = m, cols = m, stride = stride V\<rparr> = V"
  by (cases V) simp

lemma scratch_cells:
  assumes sz: "0 < sizeof_T T" and x: "x \<in> cells T (scratch_view T m b off)"
  shows "b + off \<le> x \<and> x < b + next_off T m off"
proof -
  let ?A = "max kScratchAlignmentBytes (alignof_T T)"
  obtain i j where ij: "i < m" "j < m"
    and xe: "x = b + align_up off ?A + (i * m + j) * sizeof_T T"
    using x by (auto simp: cells_def elem_addr_def scratch_view_def)
  have "i * m + j < m * m" using ij by (rule lin_index_less)
  then have "Suc (i * m + j) \<le> m * m" by simp
  then have "Suc (i * m + j) * sizeof_T T \<le> m * m * sizeof_T T" by (rule mult_le_mono1)
  then have "(i * m + j) * sizeof_T T + sizeof_T T \<le> m * m * sizeof_T T" by simp
  then have "(i * m + j) * sizeof_T T < m * m * sizeof_T T" using sz by linarith
  moreover have "off \<le> align_up off ?A" by (rule align_up_ge[OF scratch_align_pos])
  ultimately show ?thesis unfolding xe next_off_def by linarith
qed

lemma scratch_in_free:
  assumes sz: "0 < sizeof_T T" and k: "k < n9"
    and fit: "(next_off T m ^^ n9) (off_bytes a) \<le> cap_bytes a"
  shows "cells T (scratch_view T m (buf a) ((next_off T m ^^ k) (off_bytes a))) \<subseteq> free_region a"
proof
  fix x assume "x \<in> cells T (scratch_view T m (buf a) ((next_off T m ^^ k) (off_bytes a)))"
  from scratch_cells[OF sz this]
  have lo: "buf a + (next_off T m ^^ k) (off_bytes a) \<le> x"
    and hi: "x < buf a + (next_off T m ^^ Suc k) (off_bytes a)" by simp_all
  have "off_bytes a \<le> (next_off T m ^^ k) (off_bytes a)" by (rule next_off_pow_ge)
  moreover have "(next_off T m ^^ Suc k) (off_bytes a) \<le> (next_off T m ^^ n9) (off_bytes a)"
    using k by (intro next_off_pow_mono) simp
  ultimately show "x \<in> free_region a" using lo hi fit by (simp add: free_region_def)
qed

lemma wp_alloc_at:
  assumes "0 < m"
  shows "wp (arena_alloc T m m) Q E ((alloc_step T m ^^ k) s) =
     (if (next_off T m ^^ Suc k) (off_bytes (arena s)) \<le> cap_bytes (arena s)
      then Q (scratch_view T m (buf (arena s)) ((next_off T m ^^ k) (off_bytes (arena s))))
             ((alloc_step T m ^^ Suc k) s)
      else E BadAlloc ((alloc_step T m ^^ k) s))"
proof -
  have a: "arena ((alloc_step T m ^^ k) s)
      = (arena s)\<lparr>off_bytes := (next_off T m ^^ k) (off_bytes (arena s))\<rparr>"
    by (simp add: alloc_step_pow)
  show ?thesis
    unfolding wp_arena_alloc[OF assms] a by simp
qed

lemma wp_alloc9:
  assumes m: "0 < m"
    and bad: "\<And>k. k < 9 \<Longrightarrow> cap_bytes (arena s) < (next_off T m ^^ Suc k) (off_bytes (arena s))
                \<Longrightarrow> E BadAlloc ((alloc_step T m ^^ k) s)"
    and ok: "\<And>M1 M2 M3 M4 M5 M6 M7 T1 T2 t.
        (next_off T m ^^ 9) (off_bytes (arena s)) \<le> cap_bytes (arena s) \<Longrightarrow>
        M1 = scratch_view T m (buf (arena s)) ((next_off T m ^^ 0) (off_bytes (arena s))) \<Longrightarrow>
        M2 = scratch_view T m (buf (arena s)) ((next_off T m ^^ 1) (off_bytes (arena s))) \<Longrightarrow>
        M3 = scratch_view T m (buf (arena s)) ((next_off T m ^^ 2) (off_bytes (arena s))) \<Longrightarrow>
        M4 = scratch_view T m (buf (arena s)) ((next_off T m ^^ 3) (off_bytes (arena s))) \<Longrightarrow>
        M5 = scratch_view T m (buf (arena s)) ((next_off T m ^^ 4) (off_bytes (arena s))) \<Longrightarrow>
        M6 = scratch_view T m (buf (arena s)) ((next_off T m ^^ 5) (off_bytes (arena s))) \<Longrightarrow>
        M7 = scratch_view T m (buf (arena s)) ((next_off T m ^^ 6) (off_bytes (arena s))) \<Longrightarrow>
        T1 = scratch_view T m (buf (arena s)) ((next_off T m ^^ 7) (off_bytes (arena s))) \<Longrightarrow>
        T2 = scratch_view T m (buf (arena s)) ((next_off T m ^^ 8) (off_bytes (arena s))) \<Longrightarrow>
        t = (alloc_step T m ^^ 9) s \<Longrightarrow>
        Q M1 M2 M3 M4 M5 M6 M7 T1 T2 t"
  shows "wp (arena_alloc T m m) (\<lambda>M1.
         wp (arena_alloc T m m) (\<lambda>M2.
         wp (arena_alloc T m m) (\<lambda>M3.
         wp (arena_alloc T m m) (\<lambda>M4.
         wp (arena_alloc T m m) (\<lambda>M5.
         wp (arena_alloc T m m) (\<lambda>M6.
         wp (arena_alloc T m m) (\<lambda>M7.
         wp (arena_alloc T m m) (\<lambda>T1.
         wp (arena_alloc T m m) (\<lambda>T2.
         Q M1 M2 M3 M4 M5 M6 M7 T1 T2) E) E) E) E) E) E) E) E) E s"
proof -
  let ?o = "\<lambda>k. (next_off T m ^^ k) (off_bytes (arena s))"
  let ?st = "\<lambda>k. (alloc_step T m ^^ k) s"
  have s0: "s = ?st 0" by simp
  have nums: "(1::nat) = Suc 0" "(2::nat) = Suc (Suc 0)" "(3::nat) = Suc (Suc (Suc 0))"
    "(4::nat) = Suc (Suc (Suc (Suc 0)))" "(5::nat) = Suc (Suc (Suc (Suc (Suc 0))))"
    "(6::nat) = Suc (Suc (Suc (Suc (Suc (Suc 0)))))"
    "(7::nat) = Suc (Suc (Suc (Suc (Suc (Suc (Suc 0))))))"
    "(8::nat) = Suc (Suc (Suc (Suc (Suc (Suc (Suc (Suc 0)))))))"
    "(9::nat) = Suc (Suc (Suc (Suc (Suc (Suc (Suc (Suc (Suc 0))))))))"
    by simp_all
  have b0: "\<not> ?o (Suc 0) \<le> cap_bytes (arena s) \<Longrightarrow> E BadAlloc (?st (0))"
    using bad[of "0"] by (simp add: not_le del: funpow.simps)
  have b1: "\<not> ?o (Suc (Suc 0)) \<le> cap_bytes (arena s) \<Longrightarrow> E BadAlloc (?st (Suc 0))"
    using bad[of "Suc 0"] by (simp add: not_le del: funpow.simps)
  have b2: "\<not> ?o (Suc (Suc (Suc 0))) \<le> cap_bytes (arena s) \<Longrightarrow> E BadAlloc (?st (Suc (Suc 0)))"
    using bad[of "Suc (Suc 0)"] by (simp add: not_le del: funpow.simps)
  have b3: "\<not> ?o (Suc (Suc (Suc (Suc 0)))) \<le> cap_bytes (arena s) \<Longrightarrow> E BadAlloc (?st (Suc (Suc (Suc 0))))"
    using bad[of "Suc (Suc (Suc 0))"] by (simp add: not_le del: funpow.simps)
  have b4: "\<not> ?o (Suc (Suc (Suc (Suc (Suc 0))))) \<le> cap_bytes (arena s) \<Longrightarrow> E BadAlloc (?st (Suc (Suc (Suc (Suc 0)))))"
    using bad[of "Suc (Suc (Suc (Suc 0)))"] by (simp add: not_le del: funpow.simps)
  have b5: "\<not> ?o (Suc (Suc (Suc (Suc (Suc (Suc 0)))))) \<le> cap_bytes (arena s) \<Longrightarrow> E BadAlloc (?st (Suc (Suc (Suc (Suc (Suc 0))))))"
    using bad[of "Suc (Suc (Suc (Suc (Suc 0))))"] by (simp add: not_le del: funpow.simps)
  have b6: "\<not> ?o (Suc (Suc (Suc (Suc (Suc (Suc (Suc 0))))))) \<le> cap_bytes (arena s) \<Longrightarrow> E BadAlloc (?st (Suc (Suc (Suc (Suc (Suc (Suc 0)))))))"
    using bad[of "Suc (Suc (Suc (Suc (Suc (Suc 0)))))"] by (simp add: not_le del: funpow.simps)
  have b7: "\<not> ?o (Suc (Suc (Suc (Suc (Suc (Suc (Suc (Suc 0)))))))) \<le> cap_bytes (arena s) \<Longrightarrow> E BadAlloc (?st (Suc (Suc (Suc (Suc (Suc (Suc (Suc 0))))))))"
    using bad[of "Suc (Suc (Suc (Suc (Suc (Suc (Suc 0))))))"] by (simp add: not_le del: funpow.simps)
  have b8: "\<not> ?o (Suc (Suc (Suc (Suc (Suc (Suc (Suc (Suc (Suc 0))))))))) \<le> cap_bytes (arena s) \<Longrightarrow> E BadAlloc (?st (Suc (Suc (Suc (Suc (Suc (Suc (Suc (Suc 0)))))))))"
    using bad[of "Suc (Suc (Suc (Suc (Suc (Suc (Suc (Suc 0)))))))"] by (simp add: not_le del: funpow.simps)
  have fin: "?o (Suc (Suc (Suc (Suc (Suc (Suc (Suc (Suc (Suc 0))))))))) \<le> cap_bytes (arena s) \<Longrightarrow>
      Q (scratch_view T m (buf (arena s)) (?o (0))) (scratch_view T m (buf (arena s)) (?o (Suc 0))) (scratch_view T m (buf (arena s)) (?o (Suc (Suc 0)))) (scratch_view T m (buf (arena s)) (?o (Suc (Suc (Suc 0))))) (scratch_view T m (buf (arena s)) (?o (Suc (Suc (Suc (Suc 0)))))) (scratch_view T m (buf (arena s)) (?o (Suc (Suc (Suc (Suc (Suc 0))))))) (scratch_view T m (buf (arena s)) (?o (Suc (Suc (Suc (Suc (Suc (Suc 0)))))))) (scratch_view T m (buf (arena s)) (?o (Suc (Suc (Suc (Suc (Suc (Suc (Suc 0))))))))) (scratch_view T m (buf (arena s)) (?o (Suc (Suc (Suc (Suc (Suc (Suc (Suc (Suc 0)))))))))) (?st (Suc (Suc (Suc (Suc (Suc (Suc (Suc (Suc (Suc 0))))))))))"
    by (rule ok) (simp_all only: nums)
  show ?thesis
    apply (subst s0)
    apply (simp only: wp_alloc_at[OF m])
    using b0 b1 b2 b3 b4 b5 b6 b7 b8 fin
    apply (simp only: split: if_split)
    apply blast
    done
qed

lemma run_inv_touch:
  assumes "run_inv s a1 ops km ka U W G t" and "touches ops km' ka' W' t t'"
    and "W' \<subseteq> W2" and "W \<subseteq> W2"
  shows "run_inv s a1 ops (km + km') (ka + ka') U W2 G t'"
  using assms unfolding run_inv_def touches_def
  by (simp add: subset_iff) metis

lemma step_mat_add:
  assumes inv: "run_inv s a1 ops km ka U W G t"
    and shp: "rows X = m" "cols X = m" "rows Y = m" "cols Y = m" "rows Out = m" "cols Out = m"
    and sub: "cells T Out \<subseteq> W"
    and cont: "\<And>t'. run_inv s a1 ops km (ka + of_nat (m * m)) U W G t' \<Longrightarrow> Q () t'"
  shows "wp (mat_add T ops X Y Out) Q E t"
proof -
  have "wp (mat_add T ops X Y Out)
     (\<lambda>_ t'. touches ops 0 (of_nat (rows X * cols X)) (cells T Out) t t'
        \<and> (writes_apart T Out (cells T X \<union> cells T Y) \<longrightarrow>
            (\<forall>i<rows X. \<forall>j<cols X. heap t' (elem_addr T Out i j)
               = heap t (elem_addr T X i j) + heap t (elem_addr T Y i j))))
     (\<lambda>_ _. False) t"
    by (rule mat_add_spec) (simp_all add: shp)
  then show ?thesis
  proof (rule wp_cons)
    fix v t' assume "touches ops 0 (of_nat (rows X * cols X)) (cells T Out) t t'
        \<and> (writes_apart T Out (cells T X \<union> cells T Y) \<longrightarrow>
            (\<forall>i<rows X. \<forall>j<cols X. heap t' (elem_addr T Out i j)
               = heap t (elem_addr T X i j) + heap t (elem_addr T Y i j)))"
    then have "touches ops 0 (of_nat (m * m)) (cells T Out) t t'" by (simp add: shp)
    from run_inv_touch[OF inv this sub subset_refl]
    have "run_inv s a1 ops km (ka + of_nat (m * m)) U W G t'" by simp
    then show "Q v t'" using cont by simp
  qed simp
qed

lemma step_mat_sub:
  assumes inv: "run_inv s a1 ops km ka U W G t"
    and shp: "rows X = m" "cols X = m" "rows Y = m" "cols Y = m" "rows Out = m" "cols Out = m"
    and sub: "cells T Out \<subseteq> W"
    and cont: "\<And>t'. run_inv s a1 ops km (ka + of_nat (m * m)) U W G t' \<Longrightarrow> Q () t'"
  shows "wp (mat_sub T ops X Y Out) Q E t"
proof -
  have "wp (mat_sub T ops X Y Out)
     (\<lambda>_ t'. touches ops 0 (of_nat (rows X * cols X)) (cells T Out) t t'
        \<and> (writes_apart T Out (cells T X \<union> cells T Y) \<longrightarrow>
            (\<forall>i<rows X. \<forall>j<cols X. heap t' (elem_addr T Out i j)
               = heap t (elem_addr T X i j) - heap t (elem_addr T Y i j))))
     (\<lambda>_ _. False) t"
    by (rule mat_sub_spec) (simp_all add: shp)
  then show ?thesis
  proof (rule wp_cons)
    fix v t' assume "touches ops 0 (of_nat (rows X * cols X)) (cells T Out) t t'
        \<and> (writes_apart T Out (cells T X \<union> cells T Y) \<longrightarrow>
            (\<forall>i<rows X. \<forall>j<cols X. heap t' (elem_addr T Out i j)
               = heap t (elem_addr T X i j) - heap t (elem_addr T Y i j)))"
    then have "touches ops 0 (of_nat (m * m)) (cells T Out) t t'" by (simp add: shp)
    from run_inv_touch[OF inv this sub subset_refl]
    have "run_inv s a1 ops km (ka + of_nat (m * m)) U W G t'" by simp
    then show "Q v t'" using cont by simp
  qed simp
qed

lemma free_region_mono:
  "buf a1 = buf a \<Longrightarrow> cap_bytes a1 = cap_bytes a \<Longrightarrow> off_bytes a \<le> off_bytes a1
   \<Longrightarrow> free_region a1 \<subseteq> free_region a"
  by (auto simp: free_region_def)

lemma step_rec:
  assumes ok: "strassen_ok T ops X Y Z leaf t"
    and inv: "run_inv s a1 ops km ka U (free_region (arena s)) G t"
    and Z: "cells T Z \<subseteq> free_region (arena s)"
    and a1: "buf a1 = buf (arena s)" "cap_bytes a1 = cap_bytes (arena s)"
            "off_bytes (arena s) \<le> off_bytes a1"
    and X: "rows X = m"
    and U: "usage T leaf m (off_bytes a1) \<le> U"
    and P: "P \<Longrightarrow> shape_ok X Y Z leaf"
    and cont: "\<And>t'. run_inv s a1 ops (km + of_nat (fst (ops_strassen m leaf)))
                 (ka + of_nat (snd (ops_strassen m leaf))) U (free_region (arena s))
                 (usage T leaf m (off_bytes a1) \<le> max (off_bytes a1) (cap_bytes a1)) t' \<Longrightarrow> Q () t'"
  shows "wp (strassen_rec T ops X Y Z leaf) Q (fail_post P U s) t"
proof -
  have at: "arena t = a1" using inv by (simp add: run_inv_def)
  have fr: "free_region a1 \<subseteq> free_region (arena s)" by (rule free_region_mono[OF a1])
  let ?U' = "usage T leaf m (off_bytes a1)"
  have w: "wp (strassen_rec T ops X Y Z leaf)
       (\<lambda>_. rec_done T ops Z (of_nat (fst (ops_strassen m leaf)))
                (of_nat (snd (ops_strassen m leaf))) ?U' t)
       (fail_post (shape_ok X Y Z leaf) ?U' t) t"
    using ok unfolding strassen_ok_def X at .
  show ?thesis
  proof (rule wp_cons[OF w])
    fix v t' assume d: "rec_done T ops Z (of_nat (fst (ops_strassen m leaf)))
                (of_nat (snd (ops_strassen m leaf))) ?U' t t'"
    have "run_inv s a1 ops (km + of_nat (fst (ops_strassen m leaf)))
                 (ka + of_nat (snd (ops_strassen m leaf))) U (free_region (arena s))
                 (usage T leaf m (off_bytes a1) \<le> max (off_bytes a1) (cap_bytes a1)) t'"
      unfolding run_inv_def
    proof (intro conjI allI impI)
      show "usage T leaf m (off_bytes a1) \<le> max (off_bytes a1) (cap_bytes a1)"
        using d at by (simp add: rec_done_def)
      show "arena t' = a1" using d at by (simp add: rec_done_def)
      show "brk t' = brk s" using d inv by (simp add: rec_done_def run_inv_def)
      show "peak_bytes s \<le> peak_bytes t'" using d inv by (simp add: rec_done_def run_inv_def)
      show "peak_bytes t' \<le> max (peak_bytes s) U"
        using d inv U by (simp add: rec_done_def run_inv_def max_def split: if_splits)
      show "counter t' = bump ops (km + of_nat (fst (ops_strassen m leaf)))
                 (ka + of_nat (snd (ops_strassen m leaf))) (counter s)"
        using d inv by (simp add: rec_done_def run_inv_def)
    next
      fix a assume a: "a \<notin> free_region (arena s)"
      then have "a \<notin> cells T Z \<union> free_region (arena t)" using Z fr at by blast
      then have "heap t' a = heap t a" using d by (simp add: rec_done_def)
      then show "heap t' a = heap s a" using inv a by (simp add: run_inv_def)
    qed
    then show "Q v t'" using cont by simp
  next
    fix e t' assume f: "fail_post (shape_ok X Y Z leaf) ?U' t e t'"
    have "rec_fail U s t'"
      unfolding rec_fail_def
    proof (intro conjI allI impI)
      show "buf (arena t') = buf (arena s)" using f at a1 by (simp add: fail_post_def rec_fail_def)
      show "cap_bytes (arena t') = cap_bytes (arena s)"
        using f at a1 by (simp add: fail_post_def rec_fail_def)
      show "off_bytes (arena s) \<le> off_bytes (arena t')"
        using f at a1 by (simp add: fail_post_def rec_fail_def)
      show "brk t' = brk s" using f inv by (simp add: fail_post_def rec_fail_def run_inv_def)
      show "peak_bytes s \<le> peak_bytes t'"
        using f inv by (simp add: fail_post_def rec_fail_def run_inv_def)
      show "peak_bytes t' \<le> max (peak_bytes s) U"
        using f inv U by (simp add: fail_post_def rec_fail_def run_inv_def max_def split: if_splits)
    next
      fix a assume a: "a \<notin> free_region (arena s)"
      then have "a \<notin> free_region (arena t)" using fr at by blast
      then have "heap t' a = heap t a" using f by (simp add: fail_post_def rec_fail_def)
      then show "heap t' a = heap s a" using inv a by (simp add: run_inv_def)
    qed
    moreover have "P \<longrightarrow> e = BadAlloc" using f P by (simp add: fail_post_def)
    moreover have "e = BadAlloc \<longrightarrow> cap_bytes (arena s) < U"
      using f at a1 U by (auto simp: fail_post_def)
    ultimately show "fail_post P U s e t'" by (simp add: fail_post_def)
  qed
qed

lemma step_combine:
  assumes inv: "run_inv s a1 ops km ka U W G t"
    and shp: "rows M1 = m" "cols M1 = m" "rows M2 = m" "cols M2 = m" "rows M3 = m" "cols M3 = m"
     "rows M4 = m" "cols M4 = m" "rows M5 = m" "cols M5 = m" "rows M6 = m" "cols M6 = m"
     "rows M7 = m" "cols M7 = m"
     "rows C11 = m" "cols C11 = m" "rows C12 = m" "cols C12 = m"
     "rows C21 = m" "cols C21 = m" "rows C22 = m" "cols C22 = m"
    and sub: "cells T C11 \<union> cells T C12 \<union> cells T C21 \<union> cells T C22 \<subseteq> W2" "W \<subseteq> W2"
    and cont: "\<And>t'. run_inv s a1 ops km (ka + of_nat (8 * (m * m))) U W2 G t' \<Longrightarrow> Q () t'"
  shows "wp (for_loop 0 m (\<lambda>i. for_loop 0 m (\<lambda>j.
            combine_cell T ops M1 M2 M3 M4 M5 M6 M7 C11 C12 C21 C22 i j))) Q E t"
proof (rule wp_cons[OF combine_spec[OF shp, of T ops t "\<lambda>_ _. False"]])
  fix v t'
  assume "touches ops 0 (of_nat (8 * (m * m)))
               (cells T C11 \<union> cells T C12 \<union> cells T C21 \<union> cells T C22) t t'
        \<and> (quad_apart T C11 C12 C21 C22
              (cells T M1 \<union> cells T M2 \<union> cells T M3 \<union> cells T M4 \<union> cells T M5 \<union> cells T M6 \<union> cells T M7) \<longrightarrow>
            (\<forall>i<m. \<forall>j<m.
               heap t' (elem_addr T C11 i j)
                 = heap t (elem_addr T M1 i j) + heap t (elem_addr T M4 i j)
                   - heap t (elem_addr T M5 i j) + heap t (elem_addr T M7 i j)
             \<and> heap t' (elem_addr T C12 i j)
                 = heap t (elem_addr T M3 i j) + heap t (elem_addr T M5 i j)
             \<and> heap t' (elem_addr T C21 i j)
                 = heap t (elem_addr T M2 i j) + heap t (elem_addr T M4 i j)
             \<and> heap t' (elem_addr T C22 i j)
                 = heap t (elem_addr T M1 i j) - heap t (elem_addr T M2 i j)
                   + heap t (elem_addr T M3 i j) + heap t (elem_addr T M6 i j)))"
  then have "touches ops 0 (of_nat (8 * (m * m)))
               (cells T C11 \<union> cells T C12 \<union> cells T C21 \<union> cells T C22) t t'" by simp
  from run_inv_touch[OF inv this sub]
  have "run_inv s a1 ops km (ka + of_nat (8 * (m * m))) U W2 G t'" by simp
  then show "Q v t'" using cont by simp
qed simp

lemma step_rollback:
  assumes inv: "run_inv s a1 ops km ka U W G t"
    and a1: "buf a1 = buf (arena s)" "cap_bytes a1 = cap_bytes (arena s)"
            "off_bytes (arena s) \<le> off_bytes a1"
    and cont: "\<And>t'. run_inv s (arena s) ops km ka U W G t' \<Longrightarrow> Q () t'"
  shows "wp (arena_rollback (mark (arena s))) Q E t"
proof -
  have at: "arena t = a1" using inv by (simp add: run_inv_def)
  have eq: "a1\<lparr>off_bytes := off_bytes (arena s)\<rparr> = arena s"
    using a1(1,2) by (cases a1; cases "arena s") simp
  have "arena_rollback (mark (arena s)) t = Done () (t\<lparr>arena := arena s\<rparr>)"
    using a1(3) by (simp add: arena_rollback_def rollback_def mark_def at eq)
  moreover have "run_inv s (arena s) ops km ka U W G (t\<lparr>arena := arena s\<rparr>)"
    using inv by (simp add: run_inv_def)
  ultimately show ?thesis using cont by (simp add: wp_def)
qed

lemma pow2_half:
  assumes "\<exists>k. (n::nat) = 2 ^ k" "n mod 2 = 0" "n \<noteq> 0"
  shows "\<exists>k. n div 2 = 2 ^ k"
proof -
  obtain k where k: "n = 2 ^ k" using assms(1) by blast
  have "k \<noteq> 0" using assms(2) k by (cases k) simp_all
  then obtain j where "k = Suc j" by (cases k) simp_all
  then have "n div 2 = 2 ^ j" using k by simp
  then show ?thesis by blast
qed

lemma pow2_odd:
  assumes "\<exists>k. (n::nat) = 2 ^ k" "n mod 2 \<noteq> 0"
  shows "n = 1"
proof -
  obtain k where k: "n = 2 ^ k" using assms(1) by blast
  have "k = 0" using assms(2) k by (cases k) simp_all
  then show ?thesis using k by simp
qed

lemma run_inv_done:
  assumes "run_inv s (arena s) ops km ka U (cells T C \<union> free_region (arena s)) G t"
    and "km = km'" "ka = ka'" and "G \<Longrightarrow> U \<le> max (off_bytes (arena s)) (cap_bytes (arena s))"
  shows "rec_done T ops C km' ka' U s t"
  using assms by (simp add: run_inv_def rec_done_def)

lemma strassen_rec_frame_aux:
  assumes sz: "0 < sizeof_T T"
  shows "rows A = n \<Longrightarrow> strassen_ok T ops A B C leaf (s :: ('a::ring) machine)"
proof (induction n arbitrary: A B C s rule: less_induct)
  case (less n A B C s)
  note IH = less.IH
  note nA = less.prems
  let ?U = "usage T leaf (rows A) (off_bytes (arena s))"
  let ?P = "shape_ok A B C leaf"
  have fail_here: "fail_post ?P ?U s (InvalidArgument msg) s" if "\<not> ?P" for msg
    using that by (simp add: fail_post_def rec_fail_def)
  show ?case
  proof (cases "rows A \<noteq> cols A \<or> rows B \<noteq> cols B \<or> rows C \<noteq> cols C")
    case True
    then have "\<not> ?P" by (auto simp: shape_ok_def)
    moreover have "strassen_rec T ops A B C leaf s
        = Fail (InvalidArgument ''strassen_rec: non-square'') s"
      using True by (subst strassen_rec.simps) simp
    ultimately show ?thesis
      unfolding strassen_ok_def wp_def using fail_here by simp
  next
    case sq: False
    show ?thesis
    proof (cases "rows A \<noteq> rows B \<or> rows A \<noteq> rows C")
      case True
      then have "\<not> ?P" by (auto simp: shape_ok_def)
      moreover have "strassen_rec T ops A B C leaf s
          = Fail (InvalidArgument ''strassen_rec: size mismatch'') s"
        using True sq by (subst strassen_rec.simps) simp
      ultimately show ?thesis
        unfolding strassen_ok_def wp_def using fail_here by simp
    next
      case eq: False
      have shpA: "cols A = rows A" "rows B = rows A" "cols B = rows A" "rows C = rows A"
        "cols C = rows A"
        using sq eq by simp_all
      show ?thesis
      proof (cases "rows A = 0")
        case True
        have run: "strassen_rec T ops A B C leaf s = Done () s"
          using sq eq True by (subst strassen_rec.simps) simp
        have "ops_strassen 0 leaf = (0, 0)" by (subst ops_strassen.simps) (simp add: ops_naive_def)
        moreover have "usage T leaf 0 (off_bytes (arena s)) = off_bytes (arena s)"
          by (subst usage.simps) simp
        ultimately show ?thesis
          unfolding strassen_ok_def wp_def run using True
          by (simp add: rec_done_def)
      next
        case n0: False
        show ?thesis
        proof (cases "rows A \<le> leaf")
          case True
          have run: "strassen_rec T ops A B C leaf s = gemm_naive T ops A B C s"
            using sq eq n0 True by (subst strassen_rec.simps) simp
          have cnt: "ops_strassen (rows A) leaf
              = (rows A * rows A * rows A, rows A * rows A * (rows A - 1))"
            using True n0 by (subst ops_strassen.simps) (simp add: ops_naive_def)
          have Ub: "?U = off_bytes (arena s)"
            using True by (subst usage.simps) simp
          have "wp (gemm_naive T ops A B C)
             (\<lambda>_ t. touches ops (of_nat (rows A * cols B * cols A)) (of_nat (rows A * cols B * (cols A - 1)))
               (cells T C) s t
              \<and> (writes_apart T C (cells T A \<union> cells T B) \<longrightarrow>
                 (\<forall>i<rows A. \<forall>j<cols B. heap t (elem_addr T C i j)
                   = (\<Sum>p<cols A. heap s (elem_addr T A i p) * heap s (elem_addr T B p j)))))
             (\<lambda>_ _. False) s"
            by (rule gemm_naive_spec) (simp_all add: shpA)
          then have "wp (gemm_naive T ops A B C)
             (\<lambda>_. rec_done T ops C (of_nat (fst (ops_strassen (rows A) leaf)))
                (of_nat (snd (ops_strassen (rows A) leaf))) ?U s)
             (fail_post ?P ?U s) s"
          proof (rule wp_cons)
            fix v t
            assume "touches ops (of_nat (rows A * cols B * cols A)) (of_nat (rows A * cols B * (cols A - 1)))
               (cells T C) s t
              \<and> (writes_apart T C (cells T A \<union> cells T B) \<longrightarrow>
                 (\<forall>i<rows A. \<forall>j<cols B. heap t (elem_addr T C i j)
                   = (\<Sum>p<cols A. heap s (elem_addr T A i p) * heap s (elem_addr T B p j))))"
            then have "touches ops (of_nat (rows A * rows A * rows A))
                (of_nat (rows A * rows A * (rows A - 1))) (cells T C) s t"
              by (simp add: shpA)
            then show "rec_done T ops C (of_nat (fst (ops_strassen (rows A) leaf)))
                (of_nat (snd (ops_strassen (rows A) leaf))) ?U s t"
              unfolding cnt Ub by (simp add: touches_def rec_done_def)
          qed simp
          then show ?thesis unfolding strassen_ok_def by (simp add: wp_def run)
        next
          case big: False
          show ?thesis
          proof (cases "rows A mod 2 \<noteq> 0")
            case True
            have "\<not> ?P"
            proof
              assume P: ?P
              then have "\<exists>k. rows A = 2 ^ k" and lf: "1 \<le> leaf"
                unfolding shape_ok_def by blast+
              then have "rows A = 1" using True by (intro pow2_odd)
              then show False using lf big by simp
            qed
            moreover have "strassen_rec T ops A B C leaf s
                = Fail (InvalidArgument ''strassen_rec: n must be even (pad first)'') s"
              using sq eq n0 big True by (subst strassen_rec.simps) simp
            ultimately show ?thesis
              unfolding strassen_ok_def wp_def using fail_here by simp
          next
            case even: False
            define m where "m = rows A div 2"
            have m: "0 < m" "rows A = 2 * m" "m < rows A"
              using even n0 by (auto simp: m_def)
            have c1: "\<not> (rows A \<noteq> cols A \<or> rows B \<noteq> cols B \<or> rows C \<noteq> cols C)"
              and c2: "\<not> (rows A \<noteq> rows B \<or> rows A \<noteq> rows C)"
              and c3: "(rows A = 0) = False" and c4: "(rows A \<le> leaf) = False"
              and c5: "(rows A mod 2 \<noteq> 0) = False"
              using sq eq n0 big even by simp_all
            define o9 where "o9 = (next_off T m ^^ 9) (off_bytes (arena s))"
            define a1 where "a1 = (arena s)\<lparr>off_bytes := o9\<rparr>"
            have U: "?U = usage T leaf m o9"
              using n0 big even by (subst usage.simps) (simp add: m_def o9_def)
            have o9U: "o9 \<le> ?U" unfolding U by (rule usage_ge)
            have cnt: "fst (ops_strassen (rows A) leaf) = 7 * fst (ops_strassen m leaf)"
              "snd (ops_strassen (rows A) leaf) = 7 * snd (ops_strassen m leaf) + 18 * m * m"
              using big by (subst ops_strassen.simps; simp add: m_def Let_def split: prod.splits)+
            have a1f: "buf a1 = buf (arena s)" "cap_bytes a1 = cap_bytes (arena s)"
              "off_bytes (arena s) \<le> off_bytes a1" "off_bytes a1 = o9"
              by (simp_all add: a1_def o9_def next_off_pow_ge)
            have Psub: "shape_ok X Y Z leaf"
              if "?P" "rows X = m" "cols X = m" "rows Y = m" "cols Y = m" "rows Z = m" "cols Z = m"
              for X Y Z
            proof -
              from that(1) have p2: "\<exists>k. rows A = 2 ^ k" and lf: "1 \<le> leaf"
                unfolding shape_ok_def by blast+
              have "\<exists>k. m = 2 ^ k" unfolding m_def using p2 even n0 by (intro pow2_half) simp_all
              then show ?thesis unfolding shape_ok_def using that(2-) lf by simp
            qed
            have sv: "subview T A 0 0 m m = Inr (quadrant T A 0 0 m)"
              "subview T A 0 m m m = Inr (quadrant T A 0 m m)"
              "subview T A m 0 m m = Inr (quadrant T A m 0 m)"
              "subview T A m m m m = Inr (quadrant T A m m m)"
              "subview T B 0 0 m m = Inr (quadrant T B 0 0 m)"
              "subview T B 0 m m m = Inr (quadrant T B 0 m m)"
              "subview T B m 0 m m = Inr (quadrant T B m 0 m)"
              "subview T B m m m m = Inr (quadrant T B m m m)"
              "subview T C 0 0 m m = Inr (quadrant T C 0 0 m)"
              "subview T C 0 m m m = Inr (quadrant T C 0 m m)"
              "subview T C m 0 m m = Inr (quadrant T C m 0 m)"
              "subview T C m m m m = Inr (quadrant T C m m m)"
              using m shpA by (simp_all add: subview_quadrant)
            have Csub: "cells T (quadrant T C 0 0 m) \<union> cells T (quadrant T C 0 m m)
                \<union> cells T (quadrant T C m 0 m) \<union> cells T (quadrant T C m m m)
                \<subseteq> cells T C \<union> free_region (arena s)"
              using cells_quadrant[of 0 m C 0 T] cells_quadrant[of 0 m C m T]
                cells_quadrant[of m m C 0 T] cells_quadrant[of m m C m T] m shpA
              by (simp add: le_supI1)
            define body :: "'a machine \<Rightarrow> (unit, 'a machine) result" where "body =
       (bnd (lift (subview T A 0 0 m m)) (\<lambda>A11.
        bnd (lift (subview T A 0 m m m)) (\<lambda>A12.
        bnd (lift (subview T A m 0 m m)) (\<lambda>A21.
        bnd (lift (subview T A m m m m)) (\<lambda>A22.
        bnd (lift (subview T B 0 0 m m)) (\<lambda>B11.
        bnd (lift (subview T B 0 m m m)) (\<lambda>B12.
        bnd (lift (subview T B m 0 m m)) (\<lambda>B21.
        bnd (lift (subview T B m m m m)) (\<lambda>B22.
        bnd (lift (subview T C 0 0 m m)) (\<lambda>C11.
        bnd (lift (subview T C 0 m m m)) (\<lambda>C12.
        bnd (lift (subview T C m 0 m m)) (\<lambda>C21.
        bnd (lift (subview T C m m m m)) (\<lambda>C22.
        bnd (arena_alloc T m m) (\<lambda>M1.
        bnd (arena_alloc T m m) (\<lambda>M2.
        bnd (arena_alloc T m m) (\<lambda>M3.
        bnd (arena_alloc T m m) (\<lambda>M4.
        bnd (arena_alloc T m m) (\<lambda>M5.
        bnd (arena_alloc T m m) (\<lambda>M6.
        bnd (arena_alloc T m m) (\<lambda>M7.
        bnd (arena_alloc T m m) (\<lambda>T1.
        bnd (arena_alloc T m m) (\<lambda>T2.
        bnd (mat_add T ops A11 A22 T1) (\<lambda>_.
        bnd (mat_add T ops B11 B22 T2) (\<lambda>_.
        bnd (strassen_rec T ops
               \<lparr>data = data T1, rows = m, cols = m, stride = stride T1\<rparr>
               \<lparr>data = data T2, rows = m, cols = m, stride = stride T2\<rparr>
               M1 leaf) (\<lambda>_.
        bnd (mat_add T ops A21 A22 T1) (\<lambda>_.
        bnd (strassen_rec T ops
               \<lparr>data = data T1, rows = m, cols = m, stride = stride T1\<rparr>
               B11 M2 leaf) (\<lambda>_.
        bnd (mat_sub T ops B12 B22 T2) (\<lambda>_.
        bnd (strassen_rec T ops A11
               \<lparr>data = data T2, rows = m, cols = m, stride = stride T2\<rparr>
               M3 leaf) (\<lambda>_.
        bnd (mat_sub T ops B21 B11 T2) (\<lambda>_.
        bnd (strassen_rec T ops A22
               \<lparr>data = data T2, rows = m, cols = m, stride = stride T2\<rparr>
               M4 leaf) (\<lambda>_.
        bnd (mat_add T ops A11 A12 T1) (\<lambda>_.
        bnd (strassen_rec T ops
               \<lparr>data = data T1, rows = m, cols = m, stride = stride T1\<rparr>
               B22 M5 leaf) (\<lambda>_.
        bnd (mat_sub T ops A21 A11 T1) (\<lambda>_.
        bnd (mat_add T ops B11 B12 T2) (\<lambda>_.
        bnd (strassen_rec T ops
               \<lparr>data = data T1, rows = m, cols = m, stride = stride T1\<rparr>
               \<lparr>data = data T2, rows = m, cols = m, stride = stride T2\<rparr>
               M6 leaf) (\<lambda>_.
        bnd (mat_sub T ops A12 A22 T1) (\<lambda>_.
        bnd (mat_add T ops B21 B22 T2) (\<lambda>_.
        bnd (strassen_rec T ops
               \<lparr>data = data T1, rows = m, cols = m, stride = stride T1\<rparr>
               \<lparr>data = data T2, rows = m, cols = m, stride = stride T2\<rparr>
               M7 leaf) (\<lambda>_.
        bnd (for_loop 0 m (\<lambda>i. for_loop 0 m (\<lambda>j.
               combine_cell T ops M1 M2 M3 M4 M5 M6 M7 C11 C12 C21 C22 i j))) (\<lambda>_.
        arena_rollback (mark (arena s))
        ))))))))))))))))))))))))))))))))))))))))"
            have unf: "strassen_rec T ops A B C leaf s = body s"
              unfolding body_def m_def
              by (subst strassen_rec.simps) (simp only: c1 c2 c3 c4 c5 if_False)
            have unfw: "wp (strassen_rec T ops A B C leaf) Q E s = wp body Q E s" for Q E
              by (simp add: wp_def unf)
            show ?thesis
              unfolding strassen_ok_def unfw body_def
              apply (simp only: wp_bnd wp_lift sv sum.case)
              apply (rule wp_alloc9)
                apply (rule m(1))
              subgoal for k
                using o9U next_off_pow_mono[where j = k and k = 9 and T = T and m = m
                    and off = "off_bytes (arena s)"]
                  next_off_pow_mono[where j = "Suc k" and k = 9 and T = T and m = m
                    and off = "off_bytes (arena s)"]
                  next_off_pow_ge[where off = "off_bytes (arena s)" and T = T and m = m and k = k]
                unfolding o9_def[symmetric]
                by (auto simp: fail_post_def rec_fail_def alloc_step_pow le_max_iff_disj
                      simp del: funpow.simps)
              subgoal premises pr for M1 M2 M3 M4 M5 M6 M7 T1 T2 t
              proof -
                note fit = pr(1)
                have shp: "rows M1 = m" "cols M1 = m" "rows M2 = m" "cols M2 = m"
                  "rows M3 = m" "cols M3 = m" "rows M4 = m" "cols M4 = m"
                  "rows M5 = m" "cols M5 = m" "rows M6 = m" "cols M6 = m"
                  "rows M7 = m" "cols M7 = m" "rows T1 = m" "cols T1 = m"
                  "rows T2 = m" "cols T2 = m"
                  "rows (quadrant T V r0 c0 m) = m" "cols (quadrant T V r0 c0 m) = m"
                  for V r0 c0
                  by (simp_all add: pr)
                have sub: "cells T M1 \<subseteq> free_region (arena s)" "cells T M2 \<subseteq> free_region (arena s)"
                  "cells T M3 \<subseteq> free_region (arena s)" "cells T M4 \<subseteq> free_region (arena s)"
                  "cells T M5 \<subseteq> free_region (arena s)" "cells T M6 \<subseteq> free_region (arena s)"
                  "cells T M7 \<subseteq> free_region (arena s)" "cells T T1 \<subseteq> free_region (arena s)"
                  "cells T T2 \<subseteq> free_region (arena s)"
                  unfolding pr by (rule scratch_in_free[OF sz _ fit]; simp)+
                have v: "\<lparr>data = data T1, rows = m, cols = m, stride = stride T1\<rparr> = T1"
                  "\<lparr>data = data T2, rows = m, cols = m, stride = stride T2\<rparr> = T2"
                  by (simp_all add: same_view shp)
                have inv0: "run_inv s a1 ops 0 0 ?U (free_region (arena s)) True t"
                  using o9U unfolding pr(11) run_inv_def a1_def o9_def
                  by (simp add: alloc_step_pow)
                have ih: "strassen_ok T ops X Y Z leaf t'" if "rows X = m"
                  for X Y Z and t' :: "'a machine"
                  using IH[of m X Y Z t'] that m nA by simp
                have U': "usage T leaf m (off_bytes a1) \<le> ?U" unfolding U a1f by simp
                have Ucap: "?U \<le> max (off_bytes (arena s)) (cap_bytes (arena s))"
                  if "usage T leaf m (off_bytes a1) \<le> max (off_bytes a1) (cap_bytes a1)"
                  using that fit unfolding U a1f o9_def by (simp add: max_def split: if_splits)
                have sp: "shape_ok A B C leaf \<Longrightarrow> shape_ok X Y Z leaf"
                  if "rows X = m" "cols X = m" "rows Y = m" "cols Y = m" "rows Z = m" "cols Z = m"
                  for X Y Z
                  using Psub that by blast
                have fin: "(0::64 word) + of_nat (fst (ops_strassen m leaf)) + of_nat (fst (ops_strassen m leaf))
                    + of_nat (fst (ops_strassen m leaf)) + of_nat (fst (ops_strassen m leaf))
                    + of_nat (fst (ops_strassen m leaf)) + of_nat (fst (ops_strassen m leaf))
                    + of_nat (fst (ops_strassen m leaf))
                    = of_nat (fst (ops_strassen (rows A) leaf))"
                  "(0::64 word) + of_nat (m * m) + of_nat (m * m) + of_nat (snd (ops_strassen m leaf))
                    + of_nat (m * m) + of_nat (snd (ops_strassen m leaf))
                    + of_nat (m * m) + of_nat (snd (ops_strassen m leaf))
                    + of_nat (m * m) + of_nat (snd (ops_strassen m leaf))
                    + of_nat (m * m) + of_nat (snd (ops_strassen m leaf))
                    + of_nat (m * m) + of_nat (m * m) + of_nat (snd (ops_strassen m leaf))
                    + of_nat (m * m) + of_nat (m * m) + of_nat (snd (ops_strassen m leaf))
                    + of_nat (8 * (m * m))
                    = of_nat (snd (ops_strassen (rows A) leaf))"
                  unfolding cnt by simp_all
                show ?thesis
                  unfolding v
                  apply (rule step_mat_add[where m = m, OF inv0])
                         apply (simp_all only: shp)[6]
                   apply (rule sub)
                  apply (rule step_mat_add[where m = m])
                          apply assumption
                         apply (simp_all only: shp)[6]
                   apply (rule sub)
                  apply (rule step_rec[where m = m and ?a1.0 = a1])
                           apply (rule ih, simp only: shp)
                          apply assumption
                         apply (rule sub)
                        apply (rule a1f)+
                     apply (simp only: shp)
                    apply (rule U')
                   apply (rule sp; simp only: shp)
                  apply (rule step_mat_add[where m = m])
                          apply assumption
                         apply (simp_all only: shp)[6]
                   apply (rule sub)
                  apply (rule step_rec[where m = m and ?a1.0 = a1])
                           apply (rule ih, simp only: shp)
                          apply assumption
                         apply (rule sub)
                        apply (rule a1f)+
                     apply (simp only: shp)
                    apply (rule U')
                   apply (rule sp; simp only: shp)
                  apply (rule step_mat_sub[where m = m])
                          apply assumption
                         apply (simp_all only: shp)[6]
                   apply (rule sub)
                  apply (rule step_rec[where m = m and ?a1.0 = a1])
                           apply (rule ih, simp only: shp)
                          apply assumption
                         apply (rule sub)
                        apply (rule a1f)+
                     apply (simp only: shp)
                    apply (rule U')
                   apply (rule sp; simp only: shp)
                  apply (rule step_mat_sub[where m = m])
                          apply assumption
                         apply (simp_all only: shp)[6]
                   apply (rule sub)
                  apply (rule step_rec[where m = m and ?a1.0 = a1])
                           apply (rule ih, simp only: shp)
                          apply assumption
                         apply (rule sub)
                        apply (rule a1f)+
                     apply (simp only: shp)
                    apply (rule U')
                   apply (rule sp; simp only: shp)
                  apply (rule step_mat_add[where m = m])
                          apply assumption
                         apply (simp_all only: shp)[6]
                   apply (rule sub)
                  apply (rule step_rec[where m = m and ?a1.0 = a1])
                           apply (rule ih, simp only: shp)
                          apply assumption
                         apply (rule sub)
                        apply (rule a1f)+
                     apply (simp only: shp)
                    apply (rule U')
                   apply (rule sp; simp only: shp)
                  apply (rule step_mat_sub[where m = m])
                          apply assumption
                         apply (simp_all only: shp)[6]
                   apply (rule sub)
                  apply (rule step_mat_add[where m = m])
                          apply assumption
                         apply (simp_all only: shp)[6]
                   apply (rule sub)
                  apply (rule step_rec[where m = m and ?a1.0 = a1])
                           apply (rule ih, simp only: shp)
                          apply assumption
                         apply (rule sub)
                        apply (rule a1f)+
                     apply (simp only: shp)
                    apply (rule U')
                   apply (rule sp; simp only: shp)
                  apply (rule step_mat_sub[where m = m])
                          apply assumption
                         apply (simp_all only: shp)[6]
                   apply (rule sub)
                  apply (rule step_mat_add[where m = m])
                          apply assumption
                         apply (simp_all only: shp)[6]
                   apply (rule sub)
                  apply (rule step_rec[where m = m and ?a1.0 = a1])
                           apply (rule ih, simp only: shp)
                          apply assumption
                         apply (rule sub)
                        apply (rule a1f)+
                     apply (simp only: shp)
                    apply (rule U')
                   apply (rule sp; simp only: shp)
                  apply (rule step_combine[where m = m and ?W2.0 = "cells T C \<union> free_region (arena s)"])
                                          apply assumption
                                         apply (simp_all only: shp)[22]
                    apply (rule Csub)
                   apply simp
                  apply (rule step_rollback[where ?a1.0 = a1])
                      apply assumption
                     apply (rule a1f)+
                  apply (erule run_inv_done)
                    apply (rule fin)
                   apply (rule fin)
                  apply (rule Ucap, assumption)
                  done
              qed
              done
          qed
        qed
      qed
    qed
  qed
qed

lemma strassen_rec_frame:
  assumes "0 < sizeof_T T"
  shows "strassen_ok T ops A B C leaf (s :: ('a::ring) machine)"
  using strassen_rec_frame_aux[OF assms refl] .

lemma and_pred_pow2: "(2 ^ k :: nat) AND (2 ^ k - 1) = 0"
proof -
  have "(2 ^ k :: nat) AND mask k = take_bit k (2 ^ k)" by (simp add: take_bit_eq_mask)
  then show ?thesis by (simp add: mask_eq_exp_minus_1)
qed

lemma and_pred_zero_pow2:
  fixes n :: nat
  shows "n \<noteq> 0 \<Longrightarrow> n AND (n - 1) = 0 \<Longrightarrow> \<exists>k. n = 2 ^ k"
proof (induction n rule: less_induct)
  case (less n)
  show ?case
  proof (cases "n = 1")
    case True
    then have "n = 2 ^ 0" by simp
    then show ?thesis by blast
  next
    case False
    with less.prems have n2: "2 \<le> n" by simp
    then have n1: "n - 1 \<noteq> 0" by simp
    have unf: "n AND (n - 1) = (n mod 2) * ((n - 1) mod 2) + 2 * ((n div 2) AND ((n - 1) div 2))"
      using less.prems(1) n1 by (subst and_nat_unfold) simp
    show ?thesis
    proof (cases "even n")
      case True
      then obtain q where q: "n = 2 * q" by (elim evenE)
      have q0: "q \<noteq> 0" using q less.prems by simp
      have "(n - 1) div 2 = q - 1" using q q0 by (cases q) simp_all
      then have "q AND (q - 1) = 0" using unf less.prems(2) q by simp
      moreover have "q < n" using q q0 by simp
      ultimately obtain k where "q = 2 ^ k" using less.IH[of q] q0 by blast
      then have "n = 2 ^ Suc k" using q by simp
      then show ?thesis by blast
    next
      case False
      then obtain q where q: "n = 2 * q + 1" by (elim oddE)
      have "(n - 1) div 2 = q" "n div 2 = q" using q by simp_all
      then have "q = 0" using unf less.prems(2) by simp
      then show ?thesis using q \<open>n \<noteq> 1\<close> by simp
    qed
  qed
qed

lemma is_power_of_two_iff: "is_power_of_two n \<longleftrightarrow> (\<exists>k. n = 2 ^ k)"
proof
  assume "is_power_of_two n"
  then show "\<exists>k. n = 2 ^ k" by (simp add: is_power_of_two_def and_pred_zero_pow2)
next
  assume "\<exists>k. n = 2 ^ k"
  then obtain k where "n = 2 ^ k" by blast
  then show "is_power_of_two n" using and_pred_pow2[of k] by (simp add: is_power_of_two_def)
qed

lemma strassen_rec_returns:
  fixes s :: "('a::ring) machine"
  assumes sz: "0 < sizeof_T T" and sh: "shape_ok A B C leaf"
    and cap: "usage T leaf (rows A) (off_bytes (arena s)) \<le> cap_bytes (arena s)"
  shows "\<exists>t. strassen_rec T ops A B C leaf s = Done () t"
proof (cases "strassen_rec T ops A B C leaf s")
  case (Done u t)
  then show ?thesis by simp
next
  case (Fail e t)
  have "strassen_ok T ops A B C leaf s" by (rule strassen_rec_frame[OF sz])
  then have "fail_post (shape_ok A B C leaf) (usage T leaf (rows A) (off_bytes (arena s))) s e t"
    by (simp add: strassen_ok_def wp_def Fail)
  then show ?thesis using sh cap by (auto simp: fail_post_def)
qed

lemma strassen_rec_Done:
  fixes s :: "('a::ring) machine"
  assumes "0 < sizeof_T T" and "strassen_rec T ops A B C leaf s = Done u t"
  shows "rec_done T ops C (of_nat (fst (ops_strassen (rows A) leaf)))
           (of_nat (snd (ops_strassen (rows A) leaf)))
           (usage T leaf (rows A) (off_bytes (arena s))) s t"
  using strassen_rec_frame[OF assms(1), of ops A B C leaf s] assms(2)
  by (simp add: strassen_ok_def wp_def)

lemma strassen_rec_Fail:
  fixes s :: "('a::ring) machine"
  assumes "0 < sizeof_T T" and "strassen_rec T ops A B C leaf s = Fail e t"
  shows "fail_post (shape_ok A B C leaf) (usage T leaf (rows A) (off_bytes (arena s))) s e t"
  using strassen_rec_frame[OF assms(1), of ops A B C leaf s] assms(2)
  by (simp add: strassen_ok_def wp_def)

lemma strassen_rec_too_small:
  fixes s :: "('a::ring) machine"
  assumes sz: "0 < sizeof_T T" and sh: "shape_ok A B C leaf"
    and off: "off_bytes (arena s) \<le> cap_bytes (arena s)"
    and cap: "cap_bytes (arena s) < usage T leaf (rows A) (off_bytes (arena s))"
  shows "\<exists>t. strassen_rec T ops A B C leaf s = Fail BadAlloc t"
proof (cases "strassen_rec T ops A B C leaf s")
  case (Done u t)
  from strassen_rec_Done[OF sz Done]
  have "usage T leaf (rows A) (off_bytes (arena s)) \<le> max (off_bytes (arena s)) (cap_bytes (arena s))"
    by (simp add: rec_done_def)
  then show ?thesis using off cap by simp
next
  case (Fail e t)
  from strassen_rec_Fail[OF sz Fail] sh have "e = BadAlloc" by (simp add: fail_post_def)
  with Fail show ?thesis by simp
qed

lemma funpow9: "(f ^^ 9) x = f (f (f (f (f (f (f (f (f x))))))))"
  by (simp add: eval_nat_numeral)

lemma usage_2_double: "usage double_T 1 2 0 = 136"
  apply (subst usage.simps)
  apply (subst usage.simps)
  apply (simp add: funpow9 next_off_def align_up_def kScratchAlignmentBytes_def double_T_def)
  done

lemma shape_ok_2: "shape_ok A2 B2 C2 1"
proof -
  have "\<exists>k. (2::nat) = 2 ^ k" by (rule exI[of _ 1]) simp
  then show ?thesis by (simp add: shape_ok_def A2_def B2_def C2_def)
qed

lemma state2_returns: "\<exists>t. strassen_rec double_T True A2 B2 C2 1 state2 = Done () t"
proof (rule strassen_rec_returns)
  show "0 < sizeof_T double_T" by (simp add: double_T_def)
  show "shape_ok A2 B2 C2 1" by (rule shape_ok_2)
  show "usage double_T 1 (rows A2) (off_bytes (arena state2)) \<le> cap_bytes (arena state2)"
    using usage_2_double by (simp add: A2_def state2_def arena2_def)
qed

lemma prealloc_eq:
  assumes "cols A = rows A" "rows B = rows A" "cols B = rows A" "rows C = rows A" "cols C = rows A"
    and "is_power_of_two (rows A)"
  shows "gemm_strassen_pow2_prealloc T ops A B C cfg s = strassen_rec T ops A B C (leaf_size cfg) s"
  using assms by (simp add: gemm_strassen_pow2_prealloc_def)

lemma prealloc_cases:
  "(\<exists>msg. gemm_strassen_pow2_prealloc T ops A B C cfg s = Fail (InvalidArgument msg) s)
   \<or> gemm_strassen_pow2_prealloc T ops A B C cfg s = strassen_rec T ops A B C (leaf_size cfg) s"
  unfolding gemm_strassen_pow2_prealloc_def by (simp only: split: if_split) blast

text \<open>
  Claim C5.  When \<open>strassen_rec\<close> (or the pre-sized entry point
  \<open>gemm_strassen_pow2_prealloc\<close>) returns, the arena is exactly as it was on entry: the
  used-byte count equals its value before the call, and the buffer and the capacity are
  the same.
\<close>

theorem arena_restored_after_call:
  fixes s :: "('a::ring) machine"
  assumes "0 < sizeof_T T"
  shows "(strassen_rec T ops A B C leaf s = Done u t \<longrightarrow>
            used_bytes (arena t) = used_bytes (arena s) \<and> arena t = arena s)
       \<and> (gemm_strassen_pow2_prealloc T ops A B C cfg s = Done u t \<longrightarrow>
            used_bytes (arena t) = used_bytes (arena s) \<and> arena t = arena s)"
proof -
  have rec: "used_bytes (arena t) = used_bytes (arena s) \<and> arena t = arena s"
    if "strassen_rec T ops A B C leaf s = Done u t" for leaf
    using strassen_rec_Done[OF assms that] by (simp add: rec_done_def used_bytes_def)
  show ?thesis
    using rec prealloc_cases[of T ops A B C cfg s] by auto
qed

theorem arena_restored_after_call_witness:
  "0 < sizeof_T double_T
   \<and> (\<exists>t. strassen_rec double_T True A2 B2 C2 1 state2 = Done () t
          \<and> used_bytes (arena t) = used_bytes (arena state2) \<and> arena t = arena state2)"
proof -
  have sz: "0 < sizeof_T double_T" by (simp add: double_T_def)
  obtain t where t: "strassen_rec double_T True A2 B2 C2 1 state2 = Done () t"
    using state2_returns by blast
  show ?thesis
    using sz t arena_restored_after_call[OF sz, of True A2 B2 C2 1 state2 "()" t] by blast
qed

lemma strassen_rec_bad_shape:
  assumes "rows A \<noteq> cols A \<or> rows B \<noteq> cols B \<or> rows C \<noteq> cols C
           \<or> rows A \<noteq> rows B \<or> rows A \<noteq> rows C
           \<or> (rows A \<noteq> 0 \<and> leaf < rows A \<and> rows A mod 2 \<noteq> 0)"
  shows "\<exists>msg. strassen_rec T ops A B C leaf s = Fail (InvalidArgument msg) s"
proof (cases "rows A \<noteq> cols A \<or> rows B \<noteq> cols B \<or> rows C \<noteq> cols C")
  case True
  then show ?thesis by (subst strassen_rec.simps) simp
next
  case sq: False
  show ?thesis
  proof (cases "rows A \<noteq> rows B \<or> rows A \<noteq> rows C")
    case True
    with sq show ?thesis by (subst strassen_rec.simps) simp
  next
    case False
    with sq assms have "rows A \<noteq> 0" "\<not> rows A \<le> leaf" "rows A mod 2 \<noteq> 0" by auto
    with sq False show ?thesis by (subst strassen_rec.simps) simp
  qed
qed

lemma prealloc_bad_shape:
  assumes "\<not> (cols A = rows B \<and> rows C = rows A \<and> cols C = cols B \<and> rows A = cols A
              \<and> rows B = cols B \<and> rows C = cols C \<and> rows A = rows B \<and> rows A = rows C
              \<and> is_power_of_two (rows A))"
  shows "\<exists>msg. gemm_strassen_pow2_prealloc T ops A B C cfg s = Fail (InvalidArgument msg) s"
  using assms unfolding gemm_strassen_pow2_prealloc_def
  by (simp only: split: if_split) blast

text \<open>
  Claim C6.  When \<open>strassen_rec\<close> or \<open>gemm_strassen_pow2_prealloc\<close> throws, every memory
  cell outside the unused part of the arena has the value it had before the call; in
  particular a destination \<open>C\<close> that does not lie in the unused part of the arena, as the
  destination of a topmost call does not, is unmodified.  A violated precondition
  (non-square, size mismatch, odd size above the leaf size, not a power of two for the
  pre-sized entry point) throws \<open>invalid_argument\<close> with the whole state unchanged.
\<close>

theorem failure_leaves_destination:
  fixes s :: "('a::ring) machine"
  assumes "0 < sizeof_T T"
  shows "(strassen_rec T ops A B C leaf s = Fail e t \<or>
          gemm_strassen_pow2_prealloc T ops A B C \<lparr>leaf_size = leaf, pad_to_power_of_two = p\<rparr> s = Fail e t
          \<longrightarrow> (\<forall>a. a \<notin> free_region (arena s) \<longrightarrow> heap t a = heap s a)
            \<and> (cells T C \<inter> free_region (arena s) = {} \<longrightarrow>
                 (\<forall>i<rows C. \<forall>j<cols C.
                    heap t (elem_addr T C i j) = heap s (elem_addr T C i j))))
       \<and> (rows A \<noteq> cols A \<or> rows B \<noteq> cols B \<or> rows C \<noteq> cols C
            \<or> rows A \<noteq> rows B \<or> rows A \<noteq> rows C
            \<or> (rows A \<noteq> 0 \<and> leaf < rows A \<and> rows A mod 2 \<noteq> 0)
          \<longrightarrow> (\<exists>msg. strassen_rec T ops A B C leaf s = Fail (InvalidArgument msg) s))
       \<and> (\<not> (cols A = rows B \<and> rows C = rows A \<and> cols C = cols B \<and> rows A = cols A
              \<and> rows B = cols B \<and> rows C = cols C \<and> rows A = rows B \<and> rows A = rows C
              \<and> is_power_of_two (rows A))
          \<longrightarrow> (\<exists>msg. gemm_strassen_pow2_prealloc T ops A B C
                         \<lparr>leaf_size = leaf, pad_to_power_of_two = p\<rparr> s
                       = Fail (InvalidArgument msg) s))"
proof -
  let ?cfg = "\<lparr>leaf_size = leaf, pad_to_power_of_two = p\<rparr>"
  have rec: "\<forall>a. a \<notin> free_region (arena s) \<longrightarrow> heap t a = heap s a"
    if "strassen_rec T ops A B C leaf s = Fail e t"
    using strassen_rec_Fail[OF assms that] by (simp add: fail_post_def rec_fail_def)
  have pre: "\<forall>a. a \<notin> free_region (arena s) \<longrightarrow> heap t a = heap s a"
    if "gemm_strassen_pow2_prealloc T ops A B C ?cfg s = Fail e t"
    using prealloc_cases[of T ops A B C ?cfg s] that rec by auto
  have fr: "\<forall>a. a \<notin> free_region (arena s) \<longrightarrow> heap t a = heap s a"
    if "strassen_rec T ops A B C leaf s = Fail e t \<or>
        gemm_strassen_pow2_prealloc T ops A B C ?cfg s = Fail e t"
    using that rec pre by blast
  have dst: "heap t (elem_addr T C i j) = heap s (elem_addr T C i j)"
    if "strassen_rec T ops A B C leaf s = Fail e t \<or>
        gemm_strassen_pow2_prealloc T ops A B C ?cfg s = Fail e t"
      and "cells T C \<inter> free_region (arena s) = {}" "i < rows C" "j < cols C" for i j
  proof -
    have "elem_addr T C i j \<in> cells T C" using that(3,4) by (rule elem_addr_in_cells)
    then have "elem_addr T C i j \<notin> free_region (arena s)" using that(2) by blast
    then show ?thesis using fr[OF that(1)] by blast
  qed
  show ?thesis
    using fr dst strassen_rec_bad_shape[of A B C leaf T ops s]
      prealloc_bad_shape[of A B C T ops ?cfg s]
    by (intro conjI impI allI) blast+
qed

lemma odd_run_fails:
  "strassen_rec double_T True A3 B3 C3 1 state2
     = Fail (InvalidArgument ''strassen_rec: n must be even (pad first)'') state2"
  by (subst strassen_rec.simps) (simp add: A3_def B3_def C3_def)

lemma small_arena_fails:
  assumes "cap < 136"
  shows "\<exists>t. strassen_rec double_T True A2 B2 C2 1 (state2_small cap) = Fail BadAlloc t"
proof (rule strassen_rec_too_small)
  show "0 < sizeof_T double_T" by (simp add: double_T_def)
  show "shape_ok A2 B2 C2 1" by (rule shape_ok_2)
  show "off_bytes (arena (state2_small cap)) \<le> cap_bytes (arena (state2_small cap))"
    by (simp add: state2_small_def)
  show "cap_bytes (arena (state2_small cap))
      < usage double_T 1 (rows A2) (off_bytes (arena (state2_small cap)))"
    using usage_2_double assms by (simp add: A2_def state2_small_def)
qed

lemma C2_outside_arena: "cells double_T C2 \<inter> free_region (arena (state2_small cap)) = {}"
proof -
  have "x < 4096" if "x \<in> cells double_T C2" for x
    using that by (auto simp: cells_def C2_def elem_addr_def double_T_def)
  then show ?thesis by (fastforce simp: free_region_def state2_small_def)
qed

theorem failure_leaves_destination_witness:
  "0 < sizeof_T double_T
   \<and> (\<exists>t. strassen_rec double_T True A2 B2 C2 1 (state2_small 100) = Fail BadAlloc t
        \<and> cells double_T C2 \<inter> free_region (arena (state2_small 100)) = {}
        \<and> (1 < rows C2 \<and> 0 < cols C2)
        \<and> heap t (elem_addr double_T C2 1 0) = heap (state2_small 100) (elem_addr double_T C2 1 0))
   \<and> (rows A3 \<noteq> 0 \<and> 1 < rows A3 \<and> rows A3 mod 2 \<noteq> 0)
   \<and> (\<exists>msg. strassen_rec double_T True A3 B3 C3 1 state2 = Fail (InvalidArgument msg) state2)
   \<and> \<not> is_power_of_two (rows A3)
   \<and> (\<exists>msg. gemm_strassen_pow2_prealloc double_T True A3 B3 C3
                \<lparr>leaf_size = 1, pad_to_power_of_two = False\<rparr> state2
              = Fail (InvalidArgument msg) state2)"
proof -
  have sz: "0 < sizeof_T double_T" by (simp add: double_T_def)
  obtain t where t: "strassen_rec double_T True A2 B2 C2 1 (state2_small 100) = Fail BadAlloc t"
    using small_arena_fails[of 100] by auto
  have b: "1 < rows C2 \<and> 0 < cols C2" by (simp add: C2_def)
  have odd: "rows A3 \<noteq> 0 \<and> 1 < rows A3 \<and> rows A3 mod 2 \<noteq> 0" by (simp add: A3_def)
  have np: "\<not> is_power_of_two (rows A3)" by (simp add: is_power_of_two_def A3_def)
  have 1: "heap t (elem_addr double_T C2 1 0) = heap (state2_small 100) (elem_addr double_T C2 1 0)"
    using t b C2_outside_arena[of 100]
      failure_leaves_destination[OF sz, where ops = True and A = A2 and B = B2 and C = C2
        and leaf = 1 and s = "state2_small 100" and t = t and p = False and e = BadAlloc]
    by blast
  have 2: "(\<exists>msg. strassen_rec double_T True A3 B3 C3 1 state2 = Fail (InvalidArgument msg) state2)
    \<and> (\<exists>msg. gemm_strassen_pow2_prealloc double_T True A3 B3 C3
                \<lparr>leaf_size = 1, pad_to_power_of_two = False\<rparr> state2
              = Fail (InvalidArgument msg) state2)"
    using odd np
      failure_leaves_destination[OF sz, where ops = True and A = A3 and B = B3 and C = C3
        and leaf = 1 and s = state2 and t = state2 and p = False
        and e = "InvalidArgument ''strassen_rec: n must be even (pad first)''"]
    by blast
  show ?thesis using sz t b odd np 1 2 C2_outside_arena[of 100] by blast
qed

text \<open>
  Claim C4.  With a counter supplied, \<open>gemm_naive\<close> on \<open>N\<close>-by-\<open>N\<close> views returns with the
  multiply counter increased by \<open>N^3\<close> and the add counter by \<open>N^2 (N - 1)\<close>.  The
  increments of a returning \<open>strassen_rec\<close> on size \<open>N > leaf\<close> and of a returning
  \<open>strassen_rec\<close> on size \<open>N / 2\<close> satisfy \<open>mul(N) = 7 mul(N/2)\<close> and
  \<open>add(N) = 7 add(N/2) + 18 (N/2)^2\<close>, and every returning call increases the counters by
  the numbers \<open>ops_strassen\<close> of the benchmark driver computes.  \<open>mat_sub\<close> adds one to the
  add counter per element, as \<open>mat_add\<close> does, and the combination loop adds 8 per
  element.  The counters are \<open>std::uint64_t\<close>: all equalities are modulo \<open>2 ^ 64\<close>.
\<close>

theorem operation_counts:
  fixes s s' :: "('a::ring) machine"
  assumes "0 < sizeof_T T"
  shows "(rows A = N \<and> cols A = N \<and> rows B = N \<and> cols B = N \<and> rows C = N \<and> cols C = N \<longrightarrow>
          (\<exists>t. gemm_naive T True A B C s = Done () t
             \<and> mul (counter t) = mul (counter s) + of_nat (N ^ 3)
             \<and> add (counter t) = add (counter s) + of_nat (N ^ 2 * (N - 1))))
       \<and> (strassen_rec T True A B C leaf s = Done () t \<and> rows A = N \<and> leaf < N
          \<and> strassen_rec T True A' B' C' leaf s' = Done () t' \<and> rows A' = N div 2 \<longrightarrow>
            mul (counter t) - mul (counter s) = 7 * (mul (counter t') - mul (counter s'))
          \<and> add (counter t) - add (counter s)
              = 7 * (add (counter t') - add (counter s')) + 18 * of_nat ((N div 2) ^ 2))
       \<and> (strassen_rec T True A B C leaf s = Done () t \<longrightarrow>
            mul (counter t) = mul (counter s) + of_nat (fst (ops_strassen (rows A) leaf))
          \<and> add (counter t) = add (counter s) + of_nat (snd (ops_strassen (rows A) leaf)))
       \<and> (rows X = m \<and> cols X = m \<and> rows Y = m \<and> cols Y = m \<and> rows Z = m \<and> cols Z = m \<longrightarrow>
            (\<exists>t. mat_sub T True X Y Z s = Done () t
               \<and> mul (counter t) = mul (counter s)
               \<and> add (counter t) = add (counter s) + of_nat (m * m))
          \<and> (\<exists>t. mat_add T True X Y Z s = Done () t
               \<and> mul (counter t) = mul (counter s)
               \<and> add (counter t) = add (counter s) + of_nat (m * m))
          \<and> (\<exists>t. for_loop 0 m (\<lambda>i. for_loop 0 m (\<lambda>j.
                      combine_cell T True X X X X X X X Z Z Z Z i j)) s = Done () t
               \<and> mul (counter t) = mul (counter s)
               \<and> add (counter t) = add (counter s) + 8 * of_nat (m * m)))"
proof (intro conjI impI)
  assume sh: "rows A = N \<and> cols A = N \<and> rows B = N \<and> cols B = N \<and> rows C = N \<and> cols C = N"
  have "wp (gemm_naive T True A B C)
     (\<lambda>_ t. touches True (of_nat (rows A * cols B * cols A)) (of_nat (rows A * cols B * (cols A - 1)))
               (cells T C) s t
        \<and> (writes_apart T C (cells T A \<union> cells T B) \<longrightarrow>
            (\<forall>i<rows A. \<forall>j<cols B. heap t (elem_addr T C i j)
               = (\<Sum>p<cols A. heap s (elem_addr T A i p) * heap s (elem_addr T B p j)))))
     (\<lambda>_ _. False) s"
    by (rule gemm_naive_spec) (simp_all add: sh)
  from wp_DoneD[OF this] obtain t where
    t: "gemm_naive T True A B C s = Done () t"
    and tc: "touches True (of_nat (N * N * N)) (of_nat (N * N * (N - 1))) (cells T C) s t"
    by (auto simp: sh)
  have "counter t = bump True (of_nat (N * N * N)) (of_nat (N * N * (N - 1))) (counter s)"
    using tc by (simp add: touches_def)
  then have "mul (counter t) = mul (counter s) + of_nat (N ^ 3)"
    "add (counter t) = add (counter s) + of_nat (N ^ 2 * (N - 1))"
    by (simp_all add: bump_def power2_eq_square power3_eq_cube)
  with t show "\<exists>t. gemm_naive T True A B C s = Done () t
             \<and> mul (counter t) = mul (counter s) + of_nat (N ^ 3)
             \<and> add (counter t) = add (counter s) + of_nat (N ^ 2 * (N - 1))"
    by blast
next
  assume h: "strassen_rec T True A B C leaf s = Done () t \<and> rows A = N \<and> leaf < N
          \<and> strassen_rec T True A' B' C' leaf s' = Done () t' \<and> rows A' = N div 2"
  have c: "counter t = bump True (of_nat (fst (ops_strassen N leaf)))
      (of_nat (snd (ops_strassen N leaf))) (counter s)"
    using strassen_rec_Done[OF assms, of True A B C leaf s "()" t] h by (simp add: rec_done_def)
  have c': "counter t' = bump True (of_nat (fst (ops_strassen (N div 2) leaf)))
      (of_nat (snd (ops_strassen (N div 2) leaf))) (counter s')"
    using strassen_rec_Done[OF assms, of True A' B' C' leaf s' "()" t'] h by (simp add: rec_done_def)
  have unf: "fst (ops_strassen N leaf) = 7 * fst (ops_strassen (N div 2) leaf)"
    "snd (ops_strassen N leaf) = 7 * snd (ops_strassen (N div 2) leaf) + 18 * (N div 2) * (N div 2)"
    using h by (subst ops_strassen.simps; simp add: Let_def split: prod.splits)+
  show "mul (counter t) - mul (counter s) = 7 * (mul (counter t') - mul (counter s'))"
    unfolding c c' unf by (simp add: bump_def)
  show "add (counter t) - add (counter s)
              = 7 * (add (counter t') - add (counter s')) + 18 * of_nat ((N div 2) ^ 2)"
    unfolding c c' unf by (simp add: bump_def power2_eq_square)
next
  assume h: "strassen_rec T True A B C leaf s = Done () t"
  have c: "counter t = bump True (of_nat (fst (ops_strassen (rows A) leaf)))
      (of_nat (snd (ops_strassen (rows A) leaf))) (counter s)"
    using strassen_rec_Done[OF assms h] by (simp add: rec_done_def)
  show "mul (counter t) = mul (counter s) + of_nat (fst (ops_strassen (rows A) leaf))"
    "add (counter t) = add (counter s) + of_nat (snd (ops_strassen (rows A) leaf))"
    unfolding c by (simp_all add: bump_def)
next
  assume sh: "rows X = m \<and> cols X = m \<and> rows Y = m \<and> cols Y = m \<and> rows Z = m \<and> cols Z = m"
  have "wp (mat_sub T True X Y Z)
     (\<lambda>_ t. touches True 0 (of_nat (rows X * cols X)) (cells T Z) s t
        \<and> (writes_apart T Z (cells T X \<union> cells T Y) \<longrightarrow>
            (\<forall>i<rows X. \<forall>j<cols X. heap t (elem_addr T Z i j)
               = heap s (elem_addr T X i j) - heap s (elem_addr T Y i j))))
     (\<lambda>_ _. False) s"
    by (rule mat_sub_spec) (simp_all add: sh)
  from wp_DoneD[OF this] show "\<exists>t. mat_sub T True X Y Z s = Done () t
               \<and> mul (counter t) = mul (counter s)
               \<and> add (counter t) = add (counter s) + of_nat (m * m)"
    by (auto simp: sh touches_def bump_def)
  have "wp (mat_add T True X Y Z)
     (\<lambda>_ t. touches True 0 (of_nat (rows X * cols X)) (cells T Z) s t
        \<and> (writes_apart T Z (cells T X \<union> cells T Y) \<longrightarrow>
            (\<forall>i<rows X. \<forall>j<cols X. heap t (elem_addr T Z i j)
               = heap s (elem_addr T X i j) + heap s (elem_addr T Y i j))))
     (\<lambda>_ _. False) s"
    by (rule mat_add_spec) (simp_all add: sh)
  from wp_DoneD[OF this] show "\<exists>t. mat_add T True X Y Z s = Done () t
               \<and> mul (counter t) = mul (counter s)
               \<and> add (counter t) = add (counter s) + of_nat (m * m)"
    by (auto simp: sh touches_def bump_def)
  have shp: "rows X = m" "cols X = m" "rows Z = m" "cols Z = m" using sh by simp_all
  note cs = combine_spec[where ?M1.0 = X and ?M2.0 = X and ?M3.0 = X and ?M4.0 = X
      and ?M5.0 = X and ?M6.0 = X and ?M7.0 = X and ?C11.0 = Z and ?C12.0 = Z
      and ?C21.0 = Z and ?C22.0 = Z and m = m and T = T and ops = True and s = s
      and E = "\<lambda>_ _. False",
      OF shp(1,2) shp(1,2) shp(1,2) shp(1,2) shp(1,2) shp(1,2) shp(1,2)
         shp(3,4) shp(3,4) shp(3,4) shp(3,4)]
  from wp_DoneD[OF cs] show "\<exists>t. for_loop 0 m (\<lambda>i. for_loop 0 m (\<lambda>j.
                      combine_cell T True X X X X X X X Z Z Z Z i j)) s = Done () t
               \<and> mul (counter t) = mul (counter s)
               \<and> add (counter t) = add (counter s) + 8 * of_nat (m * m)"
    by (auto simp: touches_def bump_def)
qed

lemma state1_returns: "\<exists>t. strassen_rec double_T True A1 B1 C1 1 state2 = Done () t"
proof (rule strassen_rec_returns)
  show "0 < sizeof_T double_T" by (simp add: double_T_def)
  have "\<exists>k. (1::nat) = 2 ^ k" by (rule exI[of _ 0]) simp
  then show "shape_ok A1 B1 C1 1" by (simp add: shape_ok_def A1_def B1_def C1_def)
  have "usage double_T 1 1 0 = 0" by (subst usage.simps) simp
  then show "usage double_T 1 (rows A1) (off_bytes (arena state2)) \<le> cap_bytes (arena state2)"
    by (simp add: A1_def state2_def arena2_def)
qed

theorem operation_counts_witness:
  "0 < sizeof_T double_T
   \<and> (rows A2 = 2 \<and> cols A2 = 2 \<and> rows B2 = 2 \<and> cols B2 = 2 \<and> rows C2 = 2 \<and> cols C2 = 2)
   \<and> (\<exists>t. gemm_naive double_T True A2 B2 C2 state2 = Done () t
          \<and> mul (counter t) = mul (counter state2) + of_nat (2 ^ 3)
          \<and> add (counter t) = add (counter state2) + of_nat (2 ^ 2 * (2 - 1)))
   \<and> (\<exists>t t'. strassen_rec double_T True A2 B2 C2 1 state2 = Done () t \<and> rows A2 = 2 \<and> (1::nat) < 2
          \<and> strassen_rec double_T True A1 B1 C1 1 state2 = Done () t' \<and> rows A1 = 2 div 2
          \<and> mul (counter t) - mul (counter state2) = 7 * (mul (counter t') - mul (counter state2))
          \<and> add (counter t) - add (counter state2)
              = 7 * (add (counter t') - add (counter state2)) + 18 * of_nat ((2 div 2) ^ 2)
          \<and> mul (counter t) = mul (counter state2) + of_nat (fst (ops_strassen (rows A2) 1))
          \<and> add (counter t) = add (counter state2) + of_nat (snd (ops_strassen (rows A2) 1)))
   \<and> (\<exists>t. mat_sub double_T True A2 B2 C2 state2 = Done () t
          \<and> mul (counter t) = mul (counter state2)
          \<and> add (counter t) = add (counter state2) + of_nat (2 * 2))
   \<and> (\<exists>t. mat_add double_T True A2 B2 C2 state2 = Done () t
          \<and> mul (counter t) = mul (counter state2)
          \<and> add (counter t) = add (counter state2) + of_nat (2 * 2))
   \<and> (\<exists>t. for_loop 0 2 (\<lambda>i. for_loop 0 2 (\<lambda>j.
                 combine_cell double_T True A2 A2 A2 A2 A2 A2 A2 C2 C2 C2 C2 i j)) state2 = Done () t
          \<and> mul (counter t) = mul (counter state2)
          \<and> add (counter t) = add (counter state2) + 8 * of_nat (2 * 2))"
proof -
  have sz: "0 < sizeof_T double_T" by (simp add: double_T_def)
  have sh: "rows A2 = 2 \<and> cols A2 = 2 \<and> rows B2 = 2 \<and> cols B2 = 2 \<and> rows C2 = 2 \<and> cols C2 = 2"
    by (simp add: A2_def B2_def C2_def)
  obtain t where t: "strassen_rec double_T True A2 B2 C2 1 state2 = Done () t"
    using state2_returns by blast
  obtain t' where t': "strassen_rec double_T True A1 B1 C1 1 state2 = Done () t'"
    using state1_returns by blast
  have h2: "strassen_rec double_T True A2 B2 C2 1 state2 = Done () t \<and> rows A2 = 2 \<and> (1::nat) < 2
          \<and> strassen_rec double_T True A1 B1 C1 1 state2 = Done () t' \<and> rows A1 = 2 div 2"
    using t t' by (simp add: A2_def A1_def)
  note oc = operation_counts[OF sz, where A = A2 and B = B2 and C = C2 and N = 2 and s = state2
      and leaf = 1 and t = t and A' = A1 and B' = B1 and C' = C1 and s' = state2 and t' = t'
      and X = A2 and Y = B2 and Z = C2 and m = 2]
  show ?thesis
    using sz sh h2 t oc by (simp only: simp_thms) blast
qed

lemma levels_loop_2: "levels_loop 2 0 = 1"
  by (subst levels_loop.simps, subst levels_loop.simps) simp

lemma scratch_bytes_2_double: "strassen_scratch_bytes double_T 2 = Inr 1264"
  by (simp add: strassen_scratch_bytes_def levels_loop_2 Let_def double_T_def
      kScratchAlignmentBytes_def SIZE_MAX_def)

lemma is_power_of_two_2: "is_power_of_two 2"
  using is_power_of_two_iff[of 2] by (metis power_one_right)

lemma tight_arena_returns:
  "\<exists>t. strassen_rec double_T True A2 B2 C2 1 (state2_small 136) = Done () t"
proof (rule strassen_rec_returns)
  show "0 < sizeof_T double_T" by (simp add: double_T_def)
  show "shape_ok A2 B2 C2 1" by (rule shape_ok_2)
  show "usage double_T 1 (rows A2) (off_bytes (arena (state2_small 136)))
      \<le> cap_bytes (arena (state2_small 136))"
    using usage_2_double by (simp add: A2_def state2_small_def)
qed

text \<open>
  Claim C7 (as the code has it).  \<open>gemm_strassen_pow2_prealloc\<close> throws
  \<open>invalid_argument\<close>, with the whole state unchanged, when \<open>N\<close> is not a power of two.
  It never compares the arena's capacity with the sizing policy.  On square
  power-of-two inputs of equal size, with a leaf size of at least 1 and an arena whose
  offset does not exceed its capacity, the call returns when the arena has room for the
  scratch the recursion actually allocates (\<open>usage\<close>), whatever its capacity is
  otherwise; when the arena has less room the call throws \<open>bad_alloc\<close> from
  \<open>alloc_matrix\<close>, not a precondition error, after having written to scratch memory only.
\<close>

theorem prealloc_checks_shape_not_arena:
  fixes s :: "('a::ring) machine"
  assumes "0 < sizeof_T T"
  shows "(\<not> is_power_of_two (rows A) \<longrightarrow>
            (\<exists>msg. gemm_strassen_pow2_prealloc T ops A B C cfg s = Fail (InvalidArgument msg) s))
       \<and> (rows A = n \<and> cols A = n \<and> rows B = n \<and> cols B = n \<and> rows C = n \<and> cols C = n
            \<and> is_power_of_two n \<and> 1 \<le> leaf_size cfg
            \<and> off_bytes (arena s) \<le> cap_bytes (arena s) \<longrightarrow>
            (usage T (leaf_size cfg) n (off_bytes (arena s)) \<le> cap_bytes (arena s) \<longrightarrow>
               (\<exists>t. gemm_strassen_pow2_prealloc T ops A B C cfg s = Done () t))
          \<and> (cap_bytes (arena s) < usage T (leaf_size cfg) n (off_bytes (arena s)) \<longrightarrow>
               (\<exists>t. gemm_strassen_pow2_prealloc T ops A B C cfg s = Fail BadAlloc t
                  \<and> (\<forall>a. a \<notin> free_region (arena s) \<longrightarrow> heap t a = heap s a))))"
proof (intro conjI impI)
  assume "\<not> is_power_of_two (rows A)"
  then show "\<exists>msg. gemm_strassen_pow2_prealloc T ops A B C cfg s = Fail (InvalidArgument msg) s"
    using prealloc_bad_shape[of A B C T ops cfg s] by blast
next
  assume h: "rows A = n \<and> cols A = n \<and> rows B = n \<and> cols B = n \<and> rows C = n \<and> cols C = n
            \<and> is_power_of_two n \<and> 1 \<le> leaf_size cfg
            \<and> off_bytes (arena s) \<le> cap_bytes (arena s)"
  then have eq: "gemm_strassen_pow2_prealloc T ops A B C cfg s
      = strassen_rec T ops A B C (leaf_size cfg) s"
    by (intro prealloc_eq) simp_all
  have "\<exists>k. rows A = 2 ^ k" using h is_power_of_two_iff[of n] by blast
  then have sh: "shape_ok A B C (leaf_size cfg)"
    using h unfolding shape_ok_def by simp
  {
    assume "usage T (leaf_size cfg) n (off_bytes (arena s)) \<le> cap_bytes (arena s)"
    then have "usage T (leaf_size cfg) (rows A) (off_bytes (arena s)) \<le> cap_bytes (arena s)"
      using h by simp
    from strassen_rec_returns[OF assms sh this, of ops] eq
    show "\<exists>t. gemm_strassen_pow2_prealloc T ops A B C cfg s = Done () t" by simp
  }
  {
    assume "cap_bytes (arena s) < usage T (leaf_size cfg) n (off_bytes (arena s))"
    then have c: "cap_bytes (arena s) < usage T (leaf_size cfg) (rows A) (off_bytes (arena s))"
      using h by simp
    have o: "off_bytes (arena s) \<le> cap_bytes (arena s)" using h by simp
    from strassen_rec_too_small[OF assms sh o c, of ops] obtain t where
      t: "strassen_rec T ops A B C (leaf_size cfg) s = Fail BadAlloc t" by blast
    from strassen_rec_Fail[OF assms t]
    have "\<forall>a. a \<notin> free_region (arena s) \<longrightarrow> heap t a = heap s a"
      by (simp add: fail_post_def rec_fail_def)
    with t eq
    show "\<exists>t. gemm_strassen_pow2_prealloc T ops A B C cfg s = Fail BadAlloc t
                  \<and> (\<forall>a. a \<notin> free_region (arena s) \<longrightarrow> heap t a = heap s a)"
      by simp
  }
qed

theorem prealloc_checks_shape_not_arena_witness:
  "0 < sizeof_T double_T
   \<and> \<not> is_power_of_two (rows A3)
   \<and> (\<exists>msg. gemm_strassen_pow2_prealloc double_T True A3 B3 C3
               \<lparr>leaf_size = 1, pad_to_power_of_two = False\<rparr> state2
             = Fail (InvalidArgument msg) state2)
   \<and> (rows A2 = 2 \<and> cols A2 = 2 \<and> rows B2 = 2 \<and> cols B2 = 2 \<and> rows C2 = 2 \<and> cols C2 = 2
        \<and> is_power_of_two 2)
   \<and> usage double_T 1 2 (off_bytes (arena (state2_small 136))) \<le> cap_bytes (arena (state2_small 136))
   \<and> (\<exists>t. gemm_strassen_pow2_prealloc double_T True A2 B2 C2
               \<lparr>leaf_size = 1, pad_to_power_of_two = False\<rparr> (state2_small 136) = Done () t)
   \<and> cap_bytes (arena (state2_small 100)) < usage double_T 1 2 (off_bytes (arena (state2_small 100)))
   \<and> (\<exists>t. gemm_strassen_pow2_prealloc double_T True A2 B2 C2
               \<lparr>leaf_size = 1, pad_to_power_of_two = False\<rparr> (state2_small 100) = Fail BadAlloc t
          \<and> heap t (elem_addr double_T C2 0 0) = heap (state2_small 100) (elem_addr double_T C2 0 0))"
proof -
  let ?cfg = "\<lparr>leaf_size = 1, pad_to_power_of_two = False\<rparr>"
  have sz: "0 < sizeof_T double_T" by (simp add: double_T_def)
  have np: "\<not> is_power_of_two (rows A3)" by (simp add: is_power_of_two_def A3_def)
  have sh: "rows A2 = 2 \<and> cols A2 = 2 \<and> rows B2 = 2 \<and> cols B2 = 2 \<and> rows C2 = 2 \<and> cols C2 = 2
        \<and> is_power_of_two 2"
    using is_power_of_two_2 by (simp add: A2_def B2_def C2_def)
  have u1: "usage double_T 1 2 (off_bytes (arena (state2_small 136)))
      \<le> cap_bytes (arena (state2_small 136))"
    using usage_2_double by (simp add: state2_small_def)
  have u2: "cap_bytes (arena (state2_small 100))
      < usage double_T 1 2 (off_bytes (arena (state2_small 100)))"
    using usage_2_double by (simp add: state2_small_def)
  have o: "off_bytes (arena (state2_small c)) \<le> cap_bytes (arena (state2_small c))" for c
    by (simp add: state2_small_def)
  have l: "1 \<le> leaf_size ?cfg" by simp
  have 1: "\<exists>msg. gemm_strassen_pow2_prealloc double_T True A3 B3 C3 ?cfg state2
             = Fail (InvalidArgument msg) state2"
    using np prealloc_checks_shape_not_arena[OF sz, where A = A3 and B = B3 and C = C3
        and ops = True and cfg = ?cfg and s = state2]
    by blast
  have 2: "\<exists>t. gemm_strassen_pow2_prealloc double_T True A2 B2 C2 ?cfg (state2_small 136) = Done () t"
    using sh u1 o[of 136] l prealloc_checks_shape_not_arena[OF sz, where A = A2 and B = B2 and C = C2
        and ops = True and cfg = ?cfg and s = "state2_small 136" and n = 2]
    by (simp only: simp_thms strassen_config.simps) 
  have "elem_addr double_T C2 0 0 \<in> cells double_T C2"
    by (rule elem_addr_in_cells) (simp_all add: C2_def)
  then have out: "elem_addr double_T C2 0 0 \<notin> free_region (arena (state2_small 100))"
    using C2_outside_arena[of 100] by blast
  have 3: "\<exists>t. gemm_strassen_pow2_prealloc double_T True A2 B2 C2 ?cfg (state2_small 100) = Fail BadAlloc t
          \<and> heap t (elem_addr double_T C2 0 0) = heap (state2_small 100) (elem_addr double_T C2 0 0)"
    using sh u2 o[of 100] l out prealloc_checks_shape_not_arena[OF sz, where A = A2 and B = B2 and C = C2
        and ops = True and cfg = ?cfg and s = "state2_small 100" and n = 2]
    by (simp only: simp_thms strassen_config.simps) blast
  show ?thesis using sz np sh u1 u2 1 2 3 by (simp only: simp_thms)
qed

theorem prealloc_wrong_arena_size_counterexample:
  "strassen_scratch_bytes double_T 2 = Inr 1264
   \<and> capacity_bytes (arena (state2_small 136)) = 136
   \<and> used_bytes (arena (state2_small 136)) = 0
   \<and> is_done (gemm_strassen_pow2_prealloc double_T True A2 B2 C2
                \<lparr>leaf_size = 1, pad_to_power_of_two = False\<rparr> (state2_small 136))"
proof -
  obtain t where "strassen_rec double_T True A2 B2 C2 1 (state2_small 136) = Done () t"
    using tight_arena_returns by blast
  moreover have "gemm_strassen_pow2_prealloc double_T True A2 B2 C2
                \<lparr>leaf_size = 1, pad_to_power_of_two = False\<rparr> (state2_small 136)
      = strassen_rec double_T True A2 B2 C2 1 (state2_small 136)"
    using is_power_of_two_2
    by (simp add: gemm_strassen_pow2_prealloc_def A2_def B2_def C2_def)
  ultimately show ?thesis
    using scratch_bytes_2_double
    by (simp add: is_done_def capacity_bytes_def used_bytes_def state2_small_def)
qed

lemma levels_loop_acc: "levels_loop t l = l + levels_loop t 0"
proof (induction t arbitrary: l rule: less_induct)
  case (less t)
  show ?case
  proof (cases "1 < t")
    case True
    then have lt: "t div 2 < t" by simp
    have "levels_loop t l = levels_loop (t div 2) (l + 1)"
      using True by (subst levels_loop.simps) simp
    also have "\<dots> = (l + 1) + levels_loop (t div 2) 0" by (rule less[OF lt])
    finally have a: "levels_loop t l = (l + 1) + levels_loop (t div 2) 0" .
    have "levels_loop t 0 = levels_loop (t div 2) (0 + 1)"
      using True by (subst levels_loop.simps) simp
    also have "\<dots> = (0 + 1) + levels_loop (t div 2) 0" by (rule less[OF lt])
    finally show ?thesis using a by simp
  next
    case False
    then show ?thesis by (simp add: levels_loop.simps)
  qed
qed

lemma levels_loop_half: "1 < n \<Longrightarrow> levels_loop n 0 = Suc (levels_loop (n div 2) 0)"
  using levels_loop_acc[of "n div 2" 1] by (subst levels_loop.simps) simp

lemma align_up_le: "0 < a \<Longrightarrow> align_up x a \<le> x + (a - 1)"
  by (simp add: align_up_def)

lemma align_up_dvd:
  assumes "a dvd x" "0 < a"
  shows "align_up x a = x"
proof -
  have "(x + (a - 1)) mod a = (a - 1) mod a" using assms(1) by (simp add: mod_add_left_eq dvd_eq_mod_eq_0 flip: mod_add_eq)
  also have "\<dots> = a - 1" using assms(2) by simp
  finally show ?thesis by (simp add: align_up_def)
qed

lemma next_off_bound:
  assumes d: "alignof_T T dvd sizeof_T T" and a: "aligned_for T off"
  shows "next_off T m off \<le> off + 15 + m * m * sizeof_T T"
    and "aligned_for T (next_off T m off)"
    and "off + m * m * sizeof_T T \<le> next_off T m off"
proof -
  let ?a = "max kScratchAlignmentBytes (alignof_T T)"
  have ge: "off \<le> align_up off ?a" by (rule align_up_ge[OF scratch_align_pos])
  then show "off + m * m * sizeof_T T \<le> next_off T m off" by (simp add: next_off_def)
  show "next_off T m off \<le> off + 15 + m * m * sizeof_T T"
  proof (cases "alignof_T T \<le> kScratchAlignmentBytes")
    case True
    then have "?a = 16" by (simp add: kScratchAlignmentBytes_def)
    then have "align_up off ?a \<le> off + 15" using align_up_le[of 16 off] by simp
    then show ?thesis by (simp add: next_off_def)
  next
    case False
    then have m: "?a = alignof_T T" by simp
    from False a have "alignof_T T dvd off" by (simp add: aligned_for_def)
    then have "align_up off ?a = off"
      using align_up_dvd[of "alignof_T T" off] False m by (simp add: kScratchAlignmentBytes_def)
    then show ?thesis by (simp add: next_off_def)
  qed
  show "aligned_for T (next_off T m off)"
  proof (cases "alignof_T T \<le> kScratchAlignmentBytes")
    case True
    then show ?thesis by (simp add: aligned_for_def)
  next
    case False
    then have m: "?a = alignof_T T" by simp
    from False a have o: "alignof_T T dvd off" by (simp add: aligned_for_def)
    then have "align_up off ?a = off"
      using align_up_dvd[of "alignof_T T" off] False m by (simp add: kScratchAlignmentBytes_def)
    then have "next_off T m off = off + m * m * sizeof_T T" by (simp add: next_off_def)
    then show ?thesis using o d by (simp add: aligned_for_def)
  qed
qed

lemma next_off_pow_bound:
  assumes d: "alignof_T T dvd sizeof_T T" and a: "aligned_for T off"
  shows "(next_off T m ^^ k) off \<le> off + k * (15 + m * m * sizeof_T T)
       \<and> aligned_for T ((next_off T m ^^ k) off)
       \<and> off + k * (m * m * sizeof_T T) \<le> (next_off T m ^^ k) off"
proof (induction k)
  case 0
  then show ?case using a by simp
next
  case (Suc k)
  let ?o = "(next_off T m ^^ k) off"
  from Suc have al: "aligned_for T ?o" by simp
  show ?case
    using next_off_bound[OF d al, of m] Suc by (simp add: algebra_simps)
qed

lemma usage_bound:
  "alignof_T T dvd sizeof_T T \<Longrightarrow> aligned_for T off \<Longrightarrow>
     usage T leaf n off \<le> off + scratch_elems leaf n * sizeof_T T + 135 * levels_loop n 0
     \<and> off + scratch_elems leaf n * sizeof_T T \<le> usage T leaf n off"
proof (induction T leaf n off rule: usage.induct)
  case (1 T leaf n off)
  show ?case
  proof (cases "n = 0 \<or> n \<le> leaf \<or> n mod 2 \<noteq> 0")
    case True
    then have "usage T leaf n off = off" "scratch_elems leaf n = 0"
      using usage.simps[of T leaf n off] scratch_elems.simps[of leaf n] by simp_all
    then show ?thesis by simp
  next
    case False
    let ?m = "n div 2"
    let ?o = "(next_off T ?m ^^ 9) off"
    have u: "usage T leaf n off = usage T leaf ?m ?o"
      using False usage.simps[of T leaf n off] by simp
    have e: "scratch_elems leaf n = 9 * (?m * ?m) + scratch_elems leaf ?m"
      using False scratch_elems.simps[of leaf n] by simp
    have "1 < n" using False by presburger
    then have l: "levels_loop n 0 = Suc (levels_loop ?m 0)" by (rule levels_loop_half)
    note p = next_off_pow_bound[OF "1.prems", where m = ?m and k = 9]
    from p have al: "aligned_for T ?o" by simp
    note ih = "1.IH"[OF False "1.prems"(1) al]
    show ?thesis
      using ih p unfolding u e l by (simp add: algebra_simps)
  qed
qed

lemma scratch_elems_less: "0 < n \<Longrightarrow> scratch_elems leaf n < 3 * (n * n)"
proof (induction leaf n rule: scratch_elems.induct)
  case (1 leaf n)
  show ?case
  proof (cases "n = 0 \<or> n \<le> leaf \<or> n mod 2 \<noteq> 0")
    case True
    then have "scratch_elems leaf n = 0" by (subst scratch_elems.simps) simp
    then show ?thesis using "1.prems" by simp
  next
    case False
    let ?m = "n div 2"
    have e: "scratch_elems leaf n = 9 * (?m * ?m) + scratch_elems leaf ?m"
      using False scratch_elems.simps[of leaf n] by simp
    have n: "n = 2 * ?m" using False by presburger
    then have "0 < ?m" using "1.prems" by simp
    from "1.IH"[OF False this] have "scratch_elems leaf ?m < 3 * (?m * ?m)" .
    then have "scratch_elems leaf n < 12 * (?m * ?m)" unfolding e by simp
    also have "12 * (?m * ?m) = 3 * ((2 * ?m) * (2 * ?m))" by simp
    also have "\<dots> = 3 * (n * n)" using n by simp
    finally show ?thesis .
  qed
qed

lemma scratch_bytes_exact:
  assumes "3 * (n * n) * sizeof_T T + 9 * levels_loop n 0 * kScratchAlignmentBytes + 1024 < 2 ^ 64"
    and "n \<noteq> 0" and "0 < sizeof_T T"
  shows "strassen_scratch_bytes T n
    = Inr (3 * (n * n) * sizeof_T T + 9 * levels_loop n 0 * kScratchAlignmentBytes + 1024)"
proof -
  let ?M = "2 ^ 64 :: nat"
  have "n * n \<le> 3 * (n * n) * sizeof_T T" using assms(3) by simp
  moreover have "3 * (n * n) * sizeof_T T < ?M" using assms(1) by linarith
  ultimately have 1: "n * n < ?M" by (rule le_less_trans)
  have 2: "3 * (n * n) * sizeof_T T < ?M" using assms(1) by linarith
  have 3: "9 * levels_loop n 0 * kScratchAlignmentBytes + 1024 < ?M" using assms(1) by linarith
  show ?thesis
    using assms 1 2 3 by (simp add: strassen_scratch_bytes_def Let_def SIZE_MAX_def)
qed

text \<open>
  Claim C3 (as the code has it).  What counts is the capacity left above the offset at
  which the call is entered, not the capacity of the arena: an arena whose capacity is
  the policy's value but which is partly in use runs out.  Let the scalar type have a positive size that is a multiple of its alignment
  (as every C++ object type has), let the arena's offset at the call be aligned for the
  type (as 0 is, and every offset of a fresh arena), and let the sizing policy's
  \<open>std::uint64_t\<close> arithmetic not wrap around for \<open>N\<close>.  Then the offset the recursion on
  size \<open>N\<close> reaches (\<open>usage\<close>) is at most the offset at entry plus
  \<open>strassen_scratch_bytes T N\<close>; so the recorded peak of the arena never exceeds that, in
  a returning and in a throwing run, and with a capacity of at least the offset at entry
  plus \<open>strassen_scratch_bytes T N\<close> no run throws \<open>bad_alloc\<close>, and a run on square
  equal-sized power-of-two inputs returns.  The live scratch data, \<open>scratch_elems\<close>
  scalars, is strictly less than \<open>3 N^2\<close> scalars, and the alignment padding is at most
  15 bytes for each of the 9 allocations of a level, on at most \<open>log2 N\<close> levels.
\<close>

theorem scratch_within_sizing_policy:
  fixes s :: "('a::ring) machine"
  assumes "0 < sizeof_T T" and "alignof_T T dvd sizeof_T T"
    and "alignof_T T dvd off_bytes (arena s)"
    and "rows A = N"
    and "3 * (N * N) * sizeof_T T + 9 * levels_loop N 0 * kScratchAlignmentBytes + 1024 < 2 ^ 64"
    and "strassen_scratch_bytes T N = Inr S"
  shows "usage T leaf N (off_bytes (arena s)) \<le> off_bytes (arena s) + S
       \<and> off_bytes (arena s) + scratch_elems leaf N * sizeof_T T
           \<le> usage T leaf N (off_bytes (arena s))
       \<and> usage T leaf N (off_bytes (arena s))
           \<le> off_bytes (arena s) + scratch_elems leaf N * sizeof_T T + 9 * 15 * levels_loop N 0
       \<and> (0 < N \<longrightarrow> scratch_elems leaf N < 3 * N ^ 2)
       \<and> (strassen_rec T ops A B C leaf s = Done u t \<or> strassen_rec T ops A B C leaf s = Fail e t
           \<longrightarrow> peak_bytes t \<le> max (peak_bytes s) (off_bytes (arena s) + S))
       \<and> (off_bytes (arena s) + S \<le> cap_bytes (arena s)
           \<longrightarrow> strassen_rec T ops A B C leaf s \<noteq> Fail BadAlloc t
             \<and> (shape_ok A B C leaf \<longrightarrow> (\<exists>t'. strassen_rec T ops A B C leaf s = Done () t')))"
proof -
  let ?o = "off_bytes (arena s)"
  let ?U = "usage T leaf N ?o"
  have al: "aligned_for T ?o" using assms(3) by (simp add: aligned_for_def)
  note ub = usage_bound[OF assms(2) al, of leaf N]
  have lo: "?o + scratch_elems leaf N * sizeof_T T \<le> ?U" using ub by simp
  have hi: "?U \<le> ?o + scratch_elems leaf N * sizeof_T T + 9 * 15 * levels_loop N 0"
    using ub by simp
  have el: "0 < N \<longrightarrow> scratch_elems leaf N < 3 * N ^ 2"
    using scratch_elems_less[of N leaf] by (simp add: power2_eq_square)
  have US: "?U \<le> ?o + S"
  proof (cases "N = 0")
    case True
    then have "?U = ?o" using usage.simps[of T leaf N ?o] by simp
    then show ?thesis by simp
  next
    case False
    from scratch_bytes_exact[OF assms(5) False assms(1)] assms(6)
    have S: "S = 3 * (N * N) * sizeof_T T + 9 * levels_loop N 0 * kScratchAlignmentBytes + 1024"
      by simp
    have "scratch_elems leaf N \<le> 3 * (N * N)"
      using scratch_elems_less[of N leaf] False by simp
    then have "scratch_elems leaf N * sizeof_T T \<le> 3 * (N * N) * sizeof_T T"
      by (rule mult_le_mono1)
    then show ?thesis using hi unfolding S kScratchAlignmentBytes_def by linarith
  qed
  have pk: "strassen_rec T ops A B C leaf s = Done u t \<or> strassen_rec T ops A B C leaf s = Fail e t
           \<longrightarrow> peak_bytes t \<le> max (peak_bytes s) (?o + S)"
  proof
    assume "strassen_rec T ops A B C leaf s = Done u t \<or> strassen_rec T ops A B C leaf s = Fail e t"
    then have "peak_bytes t \<le> max (peak_bytes s) ?U"
      using strassen_rec_Done[OF assms(1), of ops A B C leaf s u t]
        strassen_rec_Fail[OF assms(1), of ops A B C leaf s e t] assms(4)
      by (auto simp: rec_done_def fail_post_def rec_fail_def)
    then show "peak_bytes t \<le> max (peak_bytes s) (?o + S)" using US by simp
  qed
  have ba: "?o + S \<le> cap_bytes (arena s)
           \<longrightarrow> strassen_rec T ops A B C leaf s \<noteq> Fail BadAlloc t
             \<and> (shape_ok A B C leaf \<longrightarrow> (\<exists>t'. strassen_rec T ops A B C leaf s = Done () t'))"
  proof (intro impI conjI)
    assume c: "?o + S \<le> cap_bytes (arena s)"
    then have Uc: "usage T leaf (rows A) ?o \<le> cap_bytes (arena s)" using US assms(4) by simp
    show "strassen_rec T ops A B C leaf s \<noteq> Fail BadAlloc t"
    proof
      assume "strassen_rec T ops A B C leaf s = Fail BadAlloc t"
      from strassen_rec_Fail[OF assms(1) this]
      have "cap_bytes (arena s) < usage T leaf (rows A) ?o" by (simp add: fail_post_def)
      then show False using Uc by simp
    qed
    assume "shape_ok A B C leaf"
    then show "\<exists>t'. strassen_rec T ops A B C leaf s = Done () t'"
      using strassen_rec_returns[OF assms(1) _ Uc] by blast
  qed
  show ?thesis using US lo hi el pk ba by (intro conjI)
qed

theorem scratch_within_sizing_policy_witness:
  "0 < sizeof_T double_T \<and> alignof_T double_T dvd sizeof_T double_T
   \<and> alignof_T double_T dvd off_bytes (arena state2)
   \<and> rows A2 = 2
   \<and> 3 * (2 * 2) * sizeof_T double_T + 9 * levels_loop 2 0 * kScratchAlignmentBytes + 1024
        < (2 ^ 64 :: nat)
   \<and> strassen_scratch_bytes double_T 2 = Inr 1264
   \<and> off_bytes (arena state2) + 1264 \<le> cap_bytes (arena state2)
   \<and> shape_ok A2 B2 C2 1
   \<and> (\<exists>t. strassen_rec double_T True A2 B2 C2 1 state2 = Done () t
        \<and> peak_bytes t \<le> max (peak_bytes state2) (off_bytes (arena state2) + 1264)
        \<and> strassen_rec double_T True A2 B2 C2 1 state2 \<noteq> Fail BadAlloc t)
   \<and> usage double_T 1 2 (off_bytes (arena state2)) \<le> off_bytes (arena state2) + 1264
   \<and> off_bytes (arena state2) + scratch_elems 1 2 * sizeof_T double_T
        \<le> usage double_T 1 2 (off_bytes (arena state2))
   \<and> usage double_T 1 2 (off_bytes (arena state2))
        \<le> off_bytes (arena state2) + scratch_elems 1 2 * sizeof_T double_T + 9 * 15 * levels_loop 2 0
   \<and> (0::nat) < 2 \<and> scratch_elems 1 2 < 3 * 2 ^ 2"
proof -
  have h1: "0 < sizeof_T double_T" and h2: "alignof_T double_T dvd sizeof_T double_T"
    and h3: "alignof_T double_T dvd off_bytes (arena state2)" and h4: "rows A2 = 2"
    by (simp_all add: double_T_def state2_def arena2_def A2_def)
  have h5: "3 * (2 * 2) * sizeof_T double_T + 9 * levels_loop 2 0 * kScratchAlignmentBytes + 1024
        < (2 ^ 64 :: nat)"
    by (simp add: levels_loop_2 double_T_def kScratchAlignmentBytes_def)
  have h6: "strassen_scratch_bytes double_T 2 = Inr 1264" by (rule scratch_bytes_2_double)
  have h7: "off_bytes (arena state2) + 1264 \<le> cap_bytes (arena state2)"
    by (simp add: state2_def arena2_def)
  obtain t where t: "strassen_rec double_T True A2 B2 C2 1 state2 = Done () t"
    using state2_returns by blast
  note th = scratch_within_sizing_policy[OF h1 h2 h3 h4 h5 h6, where leaf = 1 and ops = True
      and B = B2 and C = C2 and u = "()" and t = t and e = BadAlloc]
  have p: "peak_bytes t \<le> max (peak_bytes state2) (off_bytes (arena state2) + 1264)"
    using th t by blast
  have n: "strassen_rec double_T True A2 B2 C2 1 state2 \<noteq> Fail BadAlloc t"
    using th h7 by blast
  have e: "scratch_elems 1 2 < 3 * 2 ^ 2" using th by simp
  have r: "usage double_T 1 2 (off_bytes (arena state2)) \<le> off_bytes (arena state2) + 1264
   \<and> off_bytes (arena state2) + scratch_elems 1 2 * sizeof_T double_T
        \<le> usage double_T 1 2 (off_bytes (arena state2))
   \<and> usage double_T 1 2 (off_bytes (arena state2))
        \<le> off_bytes (arena state2) + scratch_elems 1 2 * sizeof_T double_T + 9 * 15 * levels_loop 2 0"
    using th by blast
  have x: "\<exists>t. strassen_rec double_T True A2 B2 C2 1 state2 = Done () t
        \<and> peak_bytes t \<le> max (peak_bytes state2) (off_bytes (arena state2) + 1264)
        \<and> strassen_rec double_T True A2 B2 C2 1 state2 \<noteq> Fail BadAlloc t"
    using t p n by blast
  have z: "(0::nat) < 2" by simp
  show ?thesis
    using h1 h2 h3 h4 h5 h6 h7 shape_ok_2 x e r z by (intro conjI) blast+
qed

lemma usage_2_double_1200: "usage double_T 1 2 1200 = 1336"
  apply (subst usage.simps)
  apply (subst usage.simps)
  apply (simp add: funpow9 next_off_def align_up_def kScratchAlignmentBytes_def double_T_def)
  done

theorem policy_capacity_arena_in_use_counterexample:
  "strassen_scratch_bytes double_T 2 = Inr 1264
   \<and> capacity_bytes (arena state2_used) = 1264
   \<and> used_bytes (arena state2_used) = 1200
   \<and> fails_with BadAlloc (strassen_rec double_T True A2 B2 C2 1 state2_used)"
proof -
  have "\<exists>t. strassen_rec double_T True A2 B2 C2 1 state2_used = Fail BadAlloc t"
  proof (rule strassen_rec_too_small)
    show "0 < sizeof_T double_T" by (simp add: double_T_def)
    show "shape_ok A2 B2 C2 1" by (rule shape_ok_2)
    show "off_bytes (arena state2_used) \<le> cap_bytes (arena state2_used)"
      by (simp add: state2_used_def)
    show "cap_bytes (arena state2_used)
        < usage double_T 1 (rows A2) (off_bytes (arena state2_used))"
      using usage_2_double_1200 by (simp add: A2_def state2_used_def)
  qed
  then have "fails_with BadAlloc (strassen_rec double_T True A2 B2 C2 1 state2_used)"
    by (auto simp: fails_with_def)
  then show ?thesis
    using scratch_bytes_2_double
    by (simp add: capacity_bytes_def used_bytes_def state2_used_def)
qed

lemma inj_view_stride:
  assumes sz: "0 < sizeof_T T" and st: "cols V \<le> stride V"
  shows "inj_view T V"
  unfolding inj_view_def
proof (intro allI impI)
  fix i j i' j'
  assume b: "i < rows V" "j < cols V" "i' < rows V" "j' < cols V"
    and e: "elem_addr T V i j = elem_addr T V i' j'"
  from e have "(i * stride V + j) * sizeof_T T = (i' * stride V + j') * sizeof_T T"
    by (simp add: elem_addr_def)
  then have "i * stride V + j = i' * stride V + j'" using sz by simp
  moreover have "j < stride V" "j' < stride V" using b st by simp_all
  ultimately show "i = i' \<and> j = j'" by (rule lin_index_unique)
qed

lemma holds_frame:
  assumes "holds T V h X" and "\<forall>a. a \<notin> W \<longrightarrow> h' a = h a" and "cells T V \<inter> W = {}"
  shows "holds T V h' X"
  unfolding holds_def
proof (intro allI impI)
  fix i j assume ij: "i < rows V" "j < cols V"
  then have "elem_addr T V i j \<in> cells T V" by (rule elem_addr_in_cells)
  then have "elem_addr T V i j \<notin> W" using assms(3) by blast
  then have "h' (elem_addr T V i j) = h (elem_addr T V i j)" using assms(2) by blast
  then show "h' (elem_addr T V i j) = X i j" using assms(1) ij by (simp add: holds_def)
qed

lemma vinv_step:
  assumes inv: "vinv T a1 H t"
    and ar: "arena t' = arena t"
    and fr: "\<forall>a. a \<notin> W \<longrightarrow> heap t' a = heap t a"
    and new: "holds T Out (heap t') Nm"
    and keep: "set H' \<subseteq> insert (Out, Nm) {p \<in> set H. cells T (fst p) \<inter> W = {}}"
  shows "vinv T a1 H' t'"
  unfolding vinv_def
proof (intro conjI ballI)
  show "arena t' = a1" using inv ar by (simp add: vinv_def)
  fix p assume "p \<in> set H'"
  then consider "p = (Out, Nm)" | "p \<in> set H" "cells T (fst p) \<inter> W = {}" using keep by blast
  then show "holds T (fst p) (heap t') (snd p)"
  proof cases
    case 1
    then show ?thesis using new by simp
  next
    case 2
    from inv 2(1) have "holds T (fst p) (heap t) (snd p)" by (simp add: vinv_def)
    then show ?thesis using fr 2(2) by (rule holds_frame)
  qed
qed

lemma vstep_mat_add:
  assumes inv: "vinv T a1 H t"
    and X: "(X, Xm) \<in> set H" and Y: "(Y, Ym) \<in> set H"
    and shp: "rows X = m" "cols X = m" "rows Y = m" "cols Y = m" "rows Out = m" "cols Out = m"
    and ap: "writes_apart T Out (cells T X \<union> cells T Y)"
    and keep: "set H' \<subseteq> insert (Out, \<lambda>i j. Xm i j + Ym i j)
                 {p \<in> set H. cells T (fst p) \<inter> cells T Out = {}}"
    and cont: "\<And>t'. vinv T a1 H' t' \<Longrightarrow> Q () t'"
  shows "wp (mat_add T ops X Y Out) Q E t"
proof -
  have "wp (mat_add T ops X Y Out)
     (\<lambda>_ t'. touches ops 0 (of_nat (rows X * cols X)) (cells T Out) t t'
        \<and> (writes_apart T Out (cells T X \<union> cells T Y) \<longrightarrow>
            (\<forall>i<rows X. \<forall>j<cols X. heap t' (elem_addr T Out i j)
               = heap t (elem_addr T X i j) + heap t (elem_addr T Y i j))))
     (\<lambda>_ _. False) t"
    by (rule mat_add_spec) (simp_all add: shp)
  then show ?thesis
  proof (rule wp_cons)
    fix v t' assume a: "touches ops 0 (of_nat (rows X * cols X)) (cells T Out) t t'
        \<and> (writes_apart T Out (cells T X \<union> cells T Y) \<longrightarrow>
            (\<forall>i<rows X. \<forall>j<cols X. heap t' (elem_addr T Out i j)
               = heap t (elem_addr T X i j) + heap t (elem_addr T Y i j)))"
    have hX: "holds T X (heap t) Xm" and hY: "holds T Y (heap t) Ym"
      using inv X Y by (auto simp: vinv_def)
    have new: "holds T Out (heap t') (\<lambda>i j. Xm i j + Ym i j)"
      using a ap hX hY by (simp add: holds_def shp)
    have "vinv T a1 H' t'"
      using inv _ _ new keep
    proof (rule vinv_step)
      show "arena t' = arena t" using a by (simp add: touches_def)
      show "\<forall>a. a \<notin> cells T Out \<longrightarrow> heap t' a = heap t a" using a by (simp add: touches_def)
    qed
    then show "Q v t'" using cont by simp
  qed simp
qed

lemma vstep_mat_sub:
  assumes inv: "vinv T a1 H t"
    and X: "(X, Xm) \<in> set H" and Y: "(Y, Ym) \<in> set H"
    and shp: "rows X = m" "cols X = m" "rows Y = m" "cols Y = m" "rows Out = m" "cols Out = m"
    and ap: "writes_apart T Out (cells T X \<union> cells T Y)"
    and keep: "set H' \<subseteq> insert (Out, \<lambda>i j. Xm i j - Ym i j)
                 {p \<in> set H. cells T (fst p) \<inter> cells T Out = {}}"
    and cont: "\<And>t'. vinv T a1 H' t' \<Longrightarrow> Q () t'"
  shows "wp (mat_sub T ops X Y Out) Q E t"
proof -
  have "wp (mat_sub T ops X Y Out)
     (\<lambda>_ t'. touches ops 0 (of_nat (rows X * cols X)) (cells T Out) t t'
        \<and> (writes_apart T Out (cells T X \<union> cells T Y) \<longrightarrow>
            (\<forall>i<rows X. \<forall>j<cols X. heap t' (elem_addr T Out i j)
               = heap t (elem_addr T X i j) - heap t (elem_addr T Y i j))))
     (\<lambda>_ _. False) t"
    by (rule mat_sub_spec) (simp_all add: shp)
  then show ?thesis
  proof (rule wp_cons)
    fix v t' assume a: "touches ops 0 (of_nat (rows X * cols X)) (cells T Out) t t'
        \<and> (writes_apart T Out (cells T X \<union> cells T Y) \<longrightarrow>
            (\<forall>i<rows X. \<forall>j<cols X. heap t' (elem_addr T Out i j)
               = heap t (elem_addr T X i j) - heap t (elem_addr T Y i j)))"
    have hX: "holds T X (heap t) Xm" and hY: "holds T Y (heap t) Ym"
      using inv X Y by (auto simp: vinv_def)
    have new: "holds T Out (heap t') (\<lambda>i j. Xm i j - Ym i j)"
      using a ap hX hY by (simp add: holds_def shp)
    have "vinv T a1 H' t'"
      using inv _ _ new keep
    proof (rule vinv_step)
      show "arena t' = arena t" using a by (simp add: touches_def)
      show "\<forall>a. a \<notin> cells T Out \<longrightarrow> heap t' a = heap t a" using a by (simp add: touches_def)
    qed
    then show "Q v t'" using cont by simp
  qed simp
qed

lemma mat_mul_cong:
  assumes "\<And>p. p < n \<Longrightarrow> X i p = X' i p" "\<And>p. p < n \<Longrightarrow> Y p j = Y' p j"
  shows "mat_mul n X Y i j = mat_mul n X' Y' i j"
  unfolding mat_mul_def by (rule sum.cong) (simp_all add: assms)

lemma vstep_rec:
  fixes t :: "('a::ring) machine"
  assumes sz: "0 < sizeof_T T"
    and ih: "pre_ok T X Y Z (arena t) \<Longrightarrow> value_ok T ops X Y Z leaf t"
    and inv: "vinv T a1 H t"
    and X: "(X, Xm) \<in> set H" and Y: "(Y, Ym) \<in> set H"
    and shp: "rows X = m" "cols X = m" "rows Y = m" "cols Y = m" "rows Z = m" "cols Z = m"
    and pre: "pre_ok T X Y Z a1"
    and keep: "set H' \<subseteq> insert (Z, mat_mul m Xm Ym)
                 {p \<in> set H. cells T (fst p) \<inter> (cells T Z \<union> free_region a1) = {}}"
    and cont: "\<And>t'. vinv T a1 H' t' \<Longrightarrow> Q () t'"
  shows "wp (strassen_rec T ops X Y Z leaf) Q (\<lambda>_ _. True) t"
proof (cases "strassen_rec T ops X Y Z leaf t")
  case (Fail e t')
  then show ?thesis by (simp add: wp_def)
next
  case (Done u t')
  have at: "arena t = a1" using inv by (simp add: vinv_def)
  have "value_ok T ops X Y Z leaf t" using ih pre at by simp
  then have v: "holds T Z (heap t') (mat_mul m (rd T X (heap t)) (rd T Y (heap t)))"
    using Done by (simp add: value_ok_def wp_def shp)
  from strassen_rec_Done[OF sz Done]
  have ar: "arena t' = arena t"
    and fr: "\<forall>a. a \<notin> cells T Z \<union> free_region a1 \<longrightarrow> heap t' a = heap t a"
    by (simp_all add: rec_done_def at)
  have hX: "holds T X (heap t) Xm" and hY: "holds T Y (heap t) Ym"
    using inv X Y by (auto simp: vinv_def)
  have new: "holds T Z (heap t') (mat_mul m Xm Ym)"
    unfolding holds_def
  proof (intro allI impI)
    fix i j assume ij: "i < rows Z" "j < cols Z"
    have "mat_mul m (rd T X (heap t)) (rd T Y (heap t)) i j = mat_mul m Xm Ym i j"
      using hX hY ij by (intro mat_mul_cong) (simp_all add: holds_def rd_def shp)
    then show "heap t' (elem_addr T Z i j) = mat_mul m Xm Ym i j"
      using v ij by (simp add: holds_def)
  qed
  have "vinv T a1 H' t'" using inv ar fr new keep by (rule vinv_step)
  then have "Q () t'" by (rule cont)
  then show ?thesis using Done by (simp add: wp_def)
qed

lemma vstep_combine:
  assumes inv: "vinv T a1 H t"
    and M: "(M1, p1) \<in> set H" "(M2, p2) \<in> set H" "(M3, p3) \<in> set H" "(M4, p4) \<in> set H"
      "(M5, p5) \<in> set H" "(M6, p6) \<in> set H" "(M7, p7) \<in> set H"
    and shp: "rows M1 = m" "cols M1 = m" "rows M2 = m" "cols M2 = m" "rows M3 = m" "cols M3 = m"
     "rows M4 = m" "cols M4 = m" "rows M5 = m" "cols M5 = m" "rows M6 = m" "cols M6 = m"
     "rows M7 = m" "cols M7 = m"
     "rows C11 = m" "cols C11 = m" "rows C12 = m" "cols C12 = m"
     "rows C21 = m" "cols C21 = m" "rows C22 = m" "cols C22 = m"
    and qa: "quad_apart T C11 C12 C21 C22
              (cells T M1 \<union> cells T M2 \<union> cells T M3 \<union> cells T M4 \<union> cells T M5 \<union> cells T M6 \<union> cells T M7)"
    and cont: "\<And>t'. holds T C11 (heap t') (\<lambda>i j. p1 i j + p4 i j - p5 i j + p7 i j)
        \<Longrightarrow> holds T C12 (heap t') (\<lambda>i j. p3 i j + p5 i j)
        \<Longrightarrow> holds T C21 (heap t') (\<lambda>i j. p2 i j + p4 i j)
        \<Longrightarrow> holds T C22 (heap t') (\<lambda>i j. p1 i j - p2 i j + p3 i j + p6 i j)
        \<Longrightarrow> Q () t'"
  shows "wp (for_loop 0 m (\<lambda>i. for_loop 0 m (\<lambda>j.
            combine_cell T ops M1 M2 M3 M4 M5 M6 M7 C11 C12 C21 C22 i j))) Q E t"
proof (rule wp_cons[OF combine_spec[OF shp, of T ops t "\<lambda>_ _. False"]])
  fix v t'
  assume "touches ops 0 (of_nat (8 * (m * m)))
               (cells T C11 \<union> cells T C12 \<union> cells T C21 \<union> cells T C22) t t'
        \<and> (quad_apart T C11 C12 C21 C22
              (cells T M1 \<union> cells T M2 \<union> cells T M3 \<union> cells T M4 \<union> cells T M5 \<union> cells T M6 \<union> cells T M7) \<longrightarrow>
            (\<forall>i<m. \<forall>j<m.
               heap t' (elem_addr T C11 i j)
                 = heap t (elem_addr T M1 i j) + heap t (elem_addr T M4 i j)
                   - heap t (elem_addr T M5 i j) + heap t (elem_addr T M7 i j)
             \<and> heap t' (elem_addr T C12 i j)
                 = heap t (elem_addr T M3 i j) + heap t (elem_addr T M5 i j)
             \<and> heap t' (elem_addr T C21 i j)
                 = heap t (elem_addr T M2 i j) + heap t (elem_addr T M4 i j)
             \<and> heap t' (elem_addr T C22 i j)
                 = heap t (elem_addr T M1 i j) - heap t (elem_addr T M2 i j)
                   + heap t (elem_addr T M3 i j) + heap t (elem_addr T M6 i j)))"
  with qa have vals: "\<forall>i<m. \<forall>j<m.
               heap t' (elem_addr T C11 i j)
                 = heap t (elem_addr T M1 i j) + heap t (elem_addr T M4 i j)
                   - heap t (elem_addr T M5 i j) + heap t (elem_addr T M7 i j)
             \<and> heap t' (elem_addr T C12 i j)
                 = heap t (elem_addr T M3 i j) + heap t (elem_addr T M5 i j)
             \<and> heap t' (elem_addr T C21 i j)
                 = heap t (elem_addr T M2 i j) + heap t (elem_addr T M4 i j)
             \<and> heap t' (elem_addr T C22 i j)
                 = heap t (elem_addr T M1 i j) - heap t (elem_addr T M2 i j)
                   + heap t (elem_addr T M3 i j) + heap t (elem_addr T M6 i j)"
    by blast
  have h: "holds T M1 (heap t) p1" "holds T M2 (heap t) p2" "holds T M3 (heap t) p3"
    "holds T M4 (heap t) p4" "holds T M5 (heap t) p5" "holds T M6 (heap t) p6"
    "holds T M7 (heap t) p7"
    using inv M by (auto simp: vinv_def)
  have e: "heap t (elem_addr T M1 i j) = p1 i j" "heap t (elem_addr T M2 i j) = p2 i j"
    "heap t (elem_addr T M3 i j) = p3 i j" "heap t (elem_addr T M4 i j) = p4 i j"
    "heap t (elem_addr T M5 i j) = p5 i j" "heap t (elem_addr T M6 i j) = p6 i j"
    "heap t (elem_addr T M7 i j) = p7 i j" if "i < m" "j < m" for i j
    using h that by (simp_all add: holds_def shp)
  have "Q () t'"
  proof (rule cont)
    show "holds T C11 (heap t') (\<lambda>i j. p1 i j + p4 i j - p5 i j + p7 i j)"
      using vals e by (simp add: holds_def shp)
    show "holds T C12 (heap t') (\<lambda>i j. p3 i j + p5 i j)"
      using vals e by (simp add: holds_def shp)
    show "holds T C21 (heap t') (\<lambda>i j. p2 i j + p4 i j)"
      using vals e by (simp add: holds_def shp)
    show "holds T C22 (heap t') (\<lambda>i j. p1 i j - p2 i j + p3 i j + p6 i j)"
      using vals e by (simp add: holds_def shp)
  qed
  then show "Q v t'" by simp
qed simp

lemma vstep_rollback:
  assumes "\<And>t'. heap t' = heap t \<Longrightarrow> Q () t'"
  shows "wp (arena_rollback mk) Q (\<lambda>_ _. True) t"
  using assms by (simp add: wp_def arena_rollback_def split: sum.splits)

lemma holds_cong:
  assumes "holds T V h X" and "\<And>i j. i < rows V \<Longrightarrow> j < cols V \<Longrightarrow> X i j = Y i j"
  shows "holds T V h Y"
  using assms by (simp add: holds_def)

lemma mat_mul_split:
  "mat_mul (2 * m) X Y i j
     = mat_mul m X Y i j + mat_mul m (\<lambda>i p. X i (m + p)) (\<lambda>p j. Y (m + p) j) i j"
proof -
  have "(\<Sum>p<2 * m. X i p * Y p j) = (\<Sum>p = 0..<m + m. X i p * Y p j)"
    by (simp add: lessThan_atLeast0 mult_2)
  also have "\<dots> = (\<Sum>p = 0..<m. X i p * Y p j) + (\<Sum>p = m..<m + m. X i p * Y p j)"
    by (simp add: sum.atLeastLessThan_concat)
  also have "(\<Sum>p = m..<m + m. X i p * Y p j) = (\<Sum>p = 0..<m. X i (m + p) * Y (m + p) j)"
    using sum.shift_bounds_nat_ivl[of "\<lambda>p. X i p * Y p j" 0 m m] by (simp add: add.commute)
  finally show ?thesis by (simp add: mat_mul_def lessThan_atLeast0)
qed

lemma strassen_identity:
  fixes a11 a12 a21 a22 b11 b12 b21 b22 :: "nat \<Rightarrow> nat \<Rightarrow> 'a::ring"
  shows "mat_mul m (\<lambda>i j. a11 i j + a22 i j) (\<lambda>i j. b11 i j + b22 i j) i j
       + mat_mul m a22 (\<lambda>i j. b21 i j - b11 i j) i j
       - mat_mul m (\<lambda>i j. a11 i j + a12 i j) b22 i j
       + mat_mul m (\<lambda>i j. a12 i j - a22 i j) (\<lambda>i j. b21 i j + b22 i j) i j
       = mat_mul m a11 b11 i j + mat_mul m a12 b21 i j"
    and "mat_mul m a11 (\<lambda>i j. b12 i j - b22 i j) i j
       + mat_mul m (\<lambda>i j. a11 i j + a12 i j) b22 i j
       = mat_mul m a11 b12 i j + mat_mul m a12 b22 i j"
    and "mat_mul m (\<lambda>i j. a21 i j + a22 i j) b11 i j
       + mat_mul m a22 (\<lambda>i j. b21 i j - b11 i j) i j
       = mat_mul m a21 b11 i j + mat_mul m a22 b21 i j"
    and "mat_mul m (\<lambda>i j. a11 i j + a22 i j) (\<lambda>i j. b11 i j + b22 i j) i j
       - mat_mul m (\<lambda>i j. a21 i j + a22 i j) b11 i j
       + mat_mul m a11 (\<lambda>i j. b12 i j - b22 i j) i j
       + mat_mul m (\<lambda>i j. a21 i j - a11 i j) (\<lambda>i j. b11 i j + b12 i j) i j
       = mat_mul m a21 b12 i j + mat_mul m a22 b22 i j"
  by (simp_all add: mat_mul_def algebra_simps sum.distrib sum_subtractf)

lemma cells_quadrant_eq:
  "cells T (quadrant T V r0 c0 m) = {elem_addr T V (r0 + i) (c0 + j) | i j. i < m \<and> j < m}"
  by (auto simp: cells_def elem_addr_quadrant)

lemma quadrants_disjoint:
  assumes inj: "inj_view T V"
    and b: "r0 + m \<le> rows V" "c0 + m \<le> cols V" "r1 + m \<le> rows V" "c1 + m \<le> cols V"
    and d: "r0 + m \<le> r1 \<or> r1 + m \<le> r0 \<or> c0 + m \<le> c1 \<or> c1 + m \<le> c0"
  shows "cells T (quadrant T V r0 c0 m) \<inter> cells T (quadrant T V r1 c1 m) = {}"
proof (rule ccontr)
  assume "cells T (quadrant T V r0 c0 m) \<inter> cells T (quadrant T V r1 c1 m) \<noteq> {}"
  then obtain i j i' j' where ij: "i < m" "j < m" "i' < m" "j' < m"
    and e: "elem_addr T V (r0 + i) (c0 + j) = elem_addr T V (r1 + i') (c1 + j')"
    unfolding cells_quadrant_eq by blast
  have "r0 + i < rows V" "c0 + j < cols V" "r1 + i' < rows V" "c1 + j' < cols V"
    using ij b by simp_all
  with inj e have "r0 + i = r1 + i' \<and> c0 + j = c1 + j'"
    unfolding inj_view_def by blast
  then show False using d ij by linarith
qed

lemma quad_apart_quadrants:
  assumes sz: "0 < sizeof_T T" and st: "cols C \<le> stride C"
    and n: "rows C = 2 * m" "cols C = 2 * m"
    and R: "cells T C \<inter> R = {}"
  shows "quad_apart T (quadrant T C 0 0 m) (quadrant T C 0 m m)
           (quadrant T C m 0 m) (quadrant T C m m m) R"
proof -
  have inj: "inj_view T C" using sz st by (rule inj_view_stride)
  have q: "inj_view T (quadrant T C r0 c0 m)" for r0 c0
    by (rule inj_view_stride[OF sz]) (use st n in simp)
  have sub: "cells T (quadrant T C r0 c0 m) \<subseteq> cells T C"
    if "r0 + m \<le> rows C" "c0 + m \<le> cols C" for r0 c0
    using that by (rule cells_quadrant)
  have s: "cells T (quadrant T C 0 0 m) \<subseteq> cells T C" "cells T (quadrant T C 0 m m) \<subseteq> cells T C"
    "cells T (quadrant T C m 0 m) \<subseteq> cells T C" "cells T (quadrant T C m m m) \<subseteq> cells T C"
    by (rule sub; simp add: n)+
  have d: "cells T (quadrant T C 0 0 m) \<inter> cells T (quadrant T C 0 m m) = {}"
    "cells T (quadrant T C 0 0 m) \<inter> cells T (quadrant T C m 0 m) = {}"
    "cells T (quadrant T C 0 0 m) \<inter> cells T (quadrant T C m m m) = {}"
    "cells T (quadrant T C 0 m m) \<inter> cells T (quadrant T C m 0 m) = {}"
    "cells T (quadrant T C 0 m m) \<inter> cells T (quadrant T C m m m) = {}"
    "cells T (quadrant T C m 0 m) \<inter> cells T (quadrant T C m m m) = {}"
    by (rule quadrants_disjoint[OF inj]; simp add: n)+
  show ?thesis
    unfolding quad_apart_def using q d s R by (intro conjI) blast+
qed

lemma quadrants_hold:
  assumes n: "rows C = 2 * m" "cols C = 2 * m"
    and h: "holds T (quadrant T C 0 0 m) h (\<lambda>i j. X i j)"
      "holds T (quadrant T C 0 m m) h (\<lambda>i j. X i (m + j))"
      "holds T (quadrant T C m 0 m) h (\<lambda>i j. X (m + i) j)"
      "holds T (quadrant T C m m m) h (\<lambda>i j. X (m + i) (m + j))"
  shows "holds T C h X"
  unfolding holds_def
proof (intro allI impI)
  fix i j assume ij: "i < rows C" "j < cols C"
  have e: "h (elem_addr T C (r0 + i') (c0 + j')) = Y i' j'"
    if "holds T (quadrant T C r0 c0 m) h Y" "i' < m" "j' < m" for r0 c0 i' j' Y
    using that by (simp add: holds_def elem_addr_quadrant)
  show "h (elem_addr T C i j) = X i j"
  proof (cases "i < m")
    case i: True
    show ?thesis
    proof (cases "j < m")
      case True
      from e[OF h(1) i True] show ?thesis by simp
    next
      case False
      then have "j - m < m" using ij n by simp
      from e[OF h(2) i this] False show ?thesis by simp
    qed
  next
    case i: False
    then have i': "i - m < m" using ij n by simp
    show ?thesis
    proof (cases "j < m")
      case True
      from e[OF h(3) i' True] i show ?thesis by simp
    next
      case False
      then have "j - m < m" using ij n by simp
      from e[OF h(4) i' this] False i show ?thesis by simp
    qed
  qed
qed

lemma scratch_disjoint:
  assumes sz: "0 < sizeof_T T" and jk: "j < k"
  shows "cells T (scratch_view T m b ((next_off T m ^^ j) off))
       \<inter> cells T (scratch_view T m b ((next_off T m ^^ k) off)) = {}"
proof (rule ccontr)
  assume "cells T (scratch_view T m b ((next_off T m ^^ j) off))
       \<inter> cells T (scratch_view T m b ((next_off T m ^^ k) off)) \<noteq> {}"
  then obtain x where x: "x \<in> cells T (scratch_view T m b ((next_off T m ^^ j) off))"
      "x \<in> cells T (scratch_view T m b ((next_off T m ^^ k) off))" by blast
  from scratch_cells[OF sz x(1)] have "x < b + (next_off T m ^^ Suc j) off" by simp
  moreover from scratch_cells[OF sz x(2)] have "b + (next_off T m ^^ k) off \<le> x" by simp
  moreover have "(next_off T m ^^ Suc j) off \<le> (next_off T m ^^ k) off"
    using jk by (intro next_off_pow_mono) simp
  ultimately show False by linarith
qed

lemma scratch_free_disjoint:
  assumes sz: "0 < sizeof_T T" and k: "k < n9"
  shows "cells T (scratch_view T m (buf a) ((next_off T m ^^ k) (off_bytes a)))
       \<inter> free_region (a\<lparr>off_bytes := (next_off T m ^^ n9) (off_bytes a)\<rparr>) = {}"
proof (rule ccontr)
  assume "cells T (scratch_view T m (buf a) ((next_off T m ^^ k) (off_bytes a)))
       \<inter> free_region (a\<lparr>off_bytes := (next_off T m ^^ n9) (off_bytes a)\<rparr>) \<noteq> {}"
  then obtain x where x: "x \<in> cells T (scratch_view T m (buf a) ((next_off T m ^^ k) (off_bytes a)))"
      "x \<in> free_region (a\<lparr>off_bytes := (next_off T m ^^ n9) (off_bytes a)\<rparr>)" by blast
  from scratch_cells[OF sz x(1)] have "x < buf a + (next_off T m ^^ Suc k) (off_bytes a)" by simp
  moreover from x(2) have "buf a + (next_off T m ^^ n9) (off_bytes a) \<le> x"
    by (simp add: free_region_def)
  moreover have "(next_off T m ^^ Suc k) (off_bytes a) \<le> (next_off T m ^^ n9) (off_bytes a)"
    using k by (intro next_off_pow_mono) simp
  ultimately show False by linarith
qed

lemma strassen_rec_value_aux:
  assumes sz: "0 < sizeof_T T"
  shows "rows A = n \<Longrightarrow> pre_ok T A B C (arena s)
     \<Longrightarrow> value_ok T ops A B C leaf (s :: ('a::ring) machine)"
proof (induction n arbitrary: A B C s rule: less_induct)
  case (less n A B C s)
  note IH = less.IH
  note nA = less.prems(1)
  note pre = less.prems(2)
  show ?case
  proof (cases "rows A \<noteq> cols A \<or> rows B \<noteq> cols B \<or> rows C \<noteq> cols C")
    case True
    have "strassen_rec T ops A B C leaf s
        = Fail (InvalidArgument ''strassen_rec: non-square'') s"
      using True by (subst strassen_rec.simps) simp
    then show ?thesis unfolding value_ok_def wp_def by simp
  next
    case sq: False
    show ?thesis
    proof (cases "rows A \<noteq> rows B \<or> rows A \<noteq> rows C")
      case True
      have "strassen_rec T ops A B C leaf s
          = Fail (InvalidArgument ''strassen_rec: size mismatch'') s"
        using True sq by (subst strassen_rec.simps) simp
      then show ?thesis unfolding value_ok_def wp_def by simp
    next
      case eq: False
      have shpA: "cols A = rows A" "rows B = rows A" "cols B = rows A" "rows C = rows A"
        "cols C = rows A"
        using sq eq by simp_all
      show ?thesis
      proof (cases "rows A = 0")
        case True
        have run: "strassen_rec T ops A B C leaf s = Done () s"
          using sq eq True by (subst strassen_rec.simps) simp
        show ?thesis
          unfolding value_ok_def wp_def run using True shpA by (simp add: holds_def)
      next
        case n0: False
        show ?thesis
        proof (cases "rows A \<le> leaf")
          case True
          have run: "strassen_rec T ops A B C leaf s = gemm_naive T ops A B C s"
            using sq eq n0 True by (subst strassen_rec.simps) simp
          have wa: "writes_apart T C (cells T A \<union> cells T B)"
            using pre inj_view_stride[OF sz, of C] by (simp add: pre_ok_def writes_apart_def)
          have "wp (gemm_naive T ops A B C)
             (\<lambda>_ t. touches ops (of_nat (rows A * cols B * cols A)) (of_nat (rows A * cols B * (cols A - 1)))
               (cells T C) s t
              \<and> (writes_apart T C (cells T A \<union> cells T B) \<longrightarrow>
                 (\<forall>i<rows A. \<forall>j<cols B. heap t (elem_addr T C i j)
                   = (\<Sum>p<cols A. heap s (elem_addr T A i p) * heap s (elem_addr T B p j)))))
             (\<lambda>_ _. False) s"
            by (rule gemm_naive_spec) (simp_all add: shpA)
          then have "wp (gemm_naive T ops A B C)
             (\<lambda>_ t. holds T C (heap t) (mat_mul (rows A) (rd T A (heap s)) (rd T B (heap s))))
             (\<lambda>_ _. True) s"
          proof (rule wp_cons)
            fix v t
            assume "touches ops (of_nat (rows A * cols B * cols A)) (of_nat (rows A * cols B * (cols A - 1)))
               (cells T C) s t
              \<and> (writes_apart T C (cells T A \<union> cells T B) \<longrightarrow>
                 (\<forall>i<rows A. \<forall>j<cols B. heap t (elem_addr T C i j)
                   = (\<Sum>p<cols A. heap s (elem_addr T A i p) * heap s (elem_addr T B p j))))"
            with wa show "holds T C (heap t) (mat_mul (rows A) (rd T A (heap s)) (rd T B (heap s)))"
              by (simp add: holds_def mat_mul_def rd_def shpA)
          qed simp
          then show ?thesis unfolding value_ok_def by (simp add: wp_def run)
        next
          case big: False
          show ?thesis
          proof (cases "rows A mod 2 \<noteq> 0")
            case True
            have "strassen_rec T ops A B C leaf s
                = Fail (InvalidArgument ''strassen_rec: n must be even (pad first)'') s"
              using sq eq n0 big True by (subst strassen_rec.simps) simp
            then show ?thesis unfolding value_ok_def wp_def by simp
          next
            case even: False
            define m where "m = rows A div 2"
            have m: "0 < m" "rows A = 2 * m" "m < rows A"
              using even n0 by (auto simp: m_def)
            have c1: "\<not> (rows A \<noteq> cols A \<or> rows B \<noteq> cols B \<or> rows C \<noteq> cols C)"
              and c2: "\<not> (rows A \<noteq> rows B \<or> rows A \<noteq> rows C)"
              and c3: "(rows A = 0) = False" and c4: "(rows A \<le> leaf) = False"
              and c5: "(rows A mod 2 \<noteq> 0) = False"
              using sq eq n0 big even by simp_all
            define o9 where "o9 = (next_off T m ^^ 9) (off_bytes (arena s))"
            define a1 where "a1 = (arena s)\<lparr>off_bytes := o9\<rparr>"
            have a1f: "buf a1 = buf (arena s)" "cap_bytes a1 = cap_bytes (arena s)"
              "off_bytes (arena s) \<le> off_bytes a1" "off_bytes a1 = o9"
              by (simp_all add: a1_def o9_def next_off_pow_ge)
            have fr1: "free_region a1 \<subseteq> free_region (arena s)"
              by (rule free_region_mono[OF a1f(1,2,3)])
            have stC: "cols C \<le> stride C"
              and CAB: "cells T C \<inter> (cells T A \<union> cells T B) = {}"
              and ABCF: "(cells T A \<union> cells T B \<union> cells T C) \<inter> free_region (arena s) = {}"
              using pre by (simp_all add: pre_ok_def)
            have sv: "subview T A 0 0 m m = Inr (quadrant T A 0 0 m)"
              "subview T A 0 m m m = Inr (quadrant T A 0 m m)"
              "subview T A m 0 m m = Inr (quadrant T A m 0 m)"
              "subview T A m m m m = Inr (quadrant T A m m m)"
              "subview T B 0 0 m m = Inr (quadrant T B 0 0 m)"
              "subview T B 0 m m m = Inr (quadrant T B 0 m m)"
              "subview T B m 0 m m = Inr (quadrant T B m 0 m)"
              "subview T B m m m m = Inr (quadrant T B m m m)"
              "subview T C 0 0 m m = Inr (quadrant T C 0 0 m)"
              "subview T C 0 m m m = Inr (quadrant T C 0 m m)"
              "subview T C m 0 m m = Inr (quadrant T C m 0 m)"
              "subview T C m m m m = Inr (quadrant T C m m m)"
              using m shpA by (simp_all add: subview_quadrant)
            have qsub: "cells T (quadrant T A 0 0 m) \<subseteq> cells T A \<union> cells T B"
              "cells T (quadrant T A 0 m m) \<subseteq> cells T A \<union> cells T B"
              "cells T (quadrant T A m 0 m) \<subseteq> cells T A \<union> cells T B"
              "cells T (quadrant T A m m m) \<subseteq> cells T A \<union> cells T B"
              "cells T (quadrant T B 0 0 m) \<subseteq> cells T A \<union> cells T B"
              "cells T (quadrant T B 0 m m) \<subseteq> cells T A \<union> cells T B"
              "cells T (quadrant T B m 0 m) \<subseteq> cells T A \<union> cells T B"
              "cells T (quadrant T B m m m) \<subseteq> cells T A \<union> cells T B"
              using cells_quadrant[of 0 m A 0 T] cells_quadrant[of 0 m A m T]
                cells_quadrant[of m m A 0 T] cells_quadrant[of m m A m T]
                cells_quadrant[of 0 m B 0 T] cells_quadrant[of 0 m B m T]
                cells_quadrant[of m m B 0 T] cells_quadrant[of m m B m T] m shpA
              by (simp_all add: le_supI1 le_supI2)
            have dja: "cells T q \<inter> cells T S = {}" "cells T S \<inter> cells T q = {}"
              if "cells T q \<subseteq> cells T A \<union> cells T B" "cells T S \<subseteq> free_region (arena s)"
              for q S
              using that ABCF by blast+
            define a11 where "a11 = (\<lambda>i j. rd T A (heap s) i j)"
            define a12 where "a12 = (\<lambda>i j. rd T A (heap s) i (m + j))"
            define a21 where "a21 = (\<lambda>i j. rd T A (heap s) (m + i) j)"
            define a22 where "a22 = (\<lambda>i j. rd T A (heap s) (m + i) (m + j))"
            define b11 where "b11 = (\<lambda>i j. rd T B (heap s) i j)"
            define b12 where "b12 = (\<lambda>i j. rd T B (heap s) i (m + j))"
            define b21 where "b21 = (\<lambda>i j. rd T B (heap s) (m + i) j)"
            define b22 where "b22 = (\<lambda>i j. rd T B (heap s) (m + i) (m + j))"
            define body :: "'a machine \<Rightarrow> (unit, 'a machine) result" where "body =
       (bnd (lift (subview T A 0 0 m m)) (\<lambda>A11.
        bnd (lift (subview T A 0 m m m)) (\<lambda>A12.
        bnd (lift (subview T A m 0 m m)) (\<lambda>A21.
        bnd (lift (subview T A m m m m)) (\<lambda>A22.
        bnd (lift (subview T B 0 0 m m)) (\<lambda>B11.
        bnd (lift (subview T B 0 m m m)) (\<lambda>B12.
        bnd (lift (subview T B m 0 m m)) (\<lambda>B21.
        bnd (lift (subview T B m m m m)) (\<lambda>B22.
        bnd (lift (subview T C 0 0 m m)) (\<lambda>C11.
        bnd (lift (subview T C 0 m m m)) (\<lambda>C12.
        bnd (lift (subview T C m 0 m m)) (\<lambda>C21.
        bnd (lift (subview T C m m m m)) (\<lambda>C22.
        bnd (arena_alloc T m m) (\<lambda>M1.
        bnd (arena_alloc T m m) (\<lambda>M2.
        bnd (arena_alloc T m m) (\<lambda>M3.
        bnd (arena_alloc T m m) (\<lambda>M4.
        bnd (arena_alloc T m m) (\<lambda>M5.
        bnd (arena_alloc T m m) (\<lambda>M6.
        bnd (arena_alloc T m m) (\<lambda>M7.
        bnd (arena_alloc T m m) (\<lambda>T1.
        bnd (arena_alloc T m m) (\<lambda>T2.
        bnd (mat_add T ops A11 A22 T1) (\<lambda>_.
        bnd (mat_add T ops B11 B22 T2) (\<lambda>_.
        bnd (strassen_rec T ops
               \<lparr>data = data T1, rows = m, cols = m, stride = stride T1\<rparr>
               \<lparr>data = data T2, rows = m, cols = m, stride = stride T2\<rparr>
               M1 leaf) (\<lambda>_.
        bnd (mat_add T ops A21 A22 T1) (\<lambda>_.
        bnd (strassen_rec T ops
               \<lparr>data = data T1, rows = m, cols = m, stride = stride T1\<rparr>
               B11 M2 leaf) (\<lambda>_.
        bnd (mat_sub T ops B12 B22 T2) (\<lambda>_.
        bnd (strassen_rec T ops A11
               \<lparr>data = data T2, rows = m, cols = m, stride = stride T2\<rparr>
               M3 leaf) (\<lambda>_.
        bnd (mat_sub T ops B21 B11 T2) (\<lambda>_.
        bnd (strassen_rec T ops A22
               \<lparr>data = data T2, rows = m, cols = m, stride = stride T2\<rparr>
               M4 leaf) (\<lambda>_.
        bnd (mat_add T ops A11 A12 T1) (\<lambda>_.
        bnd (strassen_rec T ops
               \<lparr>data = data T1, rows = m, cols = m, stride = stride T1\<rparr>
               B22 M5 leaf) (\<lambda>_.
        bnd (mat_sub T ops A21 A11 T1) (\<lambda>_.
        bnd (mat_add T ops B11 B12 T2) (\<lambda>_.
        bnd (strassen_rec T ops
               \<lparr>data = data T1, rows = m, cols = m, stride = stride T1\<rparr>
               \<lparr>data = data T2, rows = m, cols = m, stride = stride T2\<rparr>
               M6 leaf) (\<lambda>_.
        bnd (mat_sub T ops A12 A22 T1) (\<lambda>_.
        bnd (mat_add T ops B21 B22 T2) (\<lambda>_.
        bnd (strassen_rec T ops
               \<lparr>data = data T1, rows = m, cols = m, stride = stride T1\<rparr>
               \<lparr>data = data T2, rows = m, cols = m, stride = stride T2\<rparr>
               M7 leaf) (\<lambda>_.
        bnd (for_loop 0 m (\<lambda>i. for_loop 0 m (\<lambda>j.
               combine_cell T ops M1 M2 M3 M4 M5 M6 M7 C11 C12 C21 C22 i j))) (\<lambda>_.
        arena_rollback (mark (arena s))
        ))))))))))))))))))))))))))))))))))))))))"
            have unf: "strassen_rec T ops A B C leaf s = body s"
              unfolding body_def m_def
              by (subst strassen_rec.simps) (simp only: c1 c2 c3 c4 c5 if_False)
            have unfw: "wp (strassen_rec T ops A B C leaf) Q E s = wp body Q E s" for Q E
              by (simp add: wp_def unf)
            have fin: "holds T C h' (mat_mul (rows A) (rd T A (heap s)) (rd T B (heap s)))"
              if "h' = h"
                "holds T (quadrant T C 0 0 m) h (\<lambda>i j. (mat_mul m (\<lambda>i j. a11 i j + a22 i j) (\<lambda>i j. b11 i j + b22 i j)) i j + (mat_mul m a22 (\<lambda>i j. b21 i j - b11 i j)) i j - (mat_mul m (\<lambda>i j. a11 i j + a12 i j) b22) i j + (mat_mul m (\<lambda>i j. a12 i j - a22 i j) (\<lambda>i j. b21 i j + b22 i j)) i j)"
                "holds T (quadrant T C 0 m m) h (\<lambda>i j. (mat_mul m a11 (\<lambda>i j. b12 i j - b22 i j)) i j + (mat_mul m (\<lambda>i j. a11 i j + a12 i j) b22) i j)"
                "holds T (quadrant T C m 0 m) h (\<lambda>i j. (mat_mul m (\<lambda>i j. a21 i j + a22 i j) b11) i j + (mat_mul m a22 (\<lambda>i j. b21 i j - b11 i j)) i j)"
                "holds T (quadrant T C m m m) h (\<lambda>i j. (mat_mul m (\<lambda>i j. a11 i j + a22 i j) (\<lambda>i j. b11 i j + b22 i j)) i j - (mat_mul m (\<lambda>i j. a21 i j + a22 i j) b11) i j + (mat_mul m a11 (\<lambda>i j. b12 i j - b22 i j)) i j + (mat_mul m (\<lambda>i j. a21 i j - a11 i j) (\<lambda>i j. b11 i j + b12 i j)) i j)"
              for h h'
              unfolding that(1) m(2)
            proof (rule quadrants_hold)
              let ?X = "mat_mul (2 * m) (rd T A (heap s)) (rd T B (heap s))"
              show "rows C = 2 * m" "cols C = 2 * m" using shpA m by simp_all
              show "holds T (quadrant T C 0 0 m) h (\<lambda>i j. ?X i j)"
                by (rule holds_cong[OF that(2)])
                  (simp add: strassen_identity mat_mul_split,
                    simp add: mat_mul_def a11_def a12_def a21_def a22_def b11_def b12_def b21_def b22_def)
              show "holds T (quadrant T C 0 m m) h (\<lambda>i j. ?X i (m + j))"
                by (rule holds_cong[OF that(3)])
                  (simp add: strassen_identity mat_mul_split,
                    simp add: mat_mul_def a11_def a12_def a21_def a22_def b11_def b12_def b21_def b22_def)
              show "holds T (quadrant T C m 0 m) h (\<lambda>i j. ?X (m + i) j)"
                by (rule holds_cong[OF that(4)])
                  (simp add: strassen_identity mat_mul_split,
                    simp add: mat_mul_def a11_def a12_def a21_def a22_def b11_def b12_def b21_def b22_def)
              show "holds T (quadrant T C m m m) h (\<lambda>i j. ?X (m + i) (m + j))"
                by (rule holds_cong[OF that(5)])
                  (simp add: strassen_identity mat_mul_split,
                    simp add: mat_mul_def a11_def a12_def a21_def a22_def b11_def b12_def b21_def b22_def)
            qed
            show ?thesis
              unfolding value_ok_def unfw body_def
              apply (simp only: wp_bnd wp_lift sv sum.case)
              apply (rule wp_alloc9)
                apply (rule m(1))
               apply simp
              subgoal premises pr for M1 M2 M3 M4 M5 M6 M7 T1 T2 t
              proof -
                note fit = pr(1)
                have shp: "rows M1 = m" "cols M1 = m" "rows M2 = m" "cols M2 = m"
                  "rows M3 = m" "cols M3 = m" "rows M4 = m" "cols M4 = m"
                  "rows M5 = m" "cols M5 = m" "rows M6 = m" "cols M6 = m"
                  "rows M7 = m" "cols M7 = m" "rows T1 = m" "cols T1 = m"
                  "rows T2 = m" "cols T2 = m"
                  "rows (quadrant T V r0 c0 m) = m" "cols (quadrant T V r0 c0 m) = m"
                  for V r0 c0
                  by (simp_all add: pr)
                have st: "cols M1 \<le> stride M1" "cols M2 \<le> stride M2" "cols M3 \<le> stride M3"
                  "cols M4 \<le> stride M4" "cols M5 \<le> stride M5" "cols M6 \<le> stride M6"
                  "cols M7 \<le> stride M7" "cols T1 \<le> stride T1" "cols T2 \<le> stride T2"
                  by (simp_all add: pr)
                have inj: "inj_view T M1" "inj_view T M2" "inj_view T M3" "inj_view T M4"
                  "inj_view T M5" "inj_view T M6" "inj_view T M7" "inj_view T T1" "inj_view T T2"
                  by (rule inj_view_stride[OF sz]; rule st)+
                have sub: "cells T M1 \<subseteq> free_region (arena s)" "cells T M2 \<subseteq> free_region (arena s)"
                  "cells T M3 \<subseteq> free_region (arena s)" "cells T M4 \<subseteq> free_region (arena s)"
                  "cells T M5 \<subseteq> free_region (arena s)" "cells T M6 \<subseteq> free_region (arena s)"
                  "cells T M7 \<subseteq> free_region (arena s)" "cells T T1 \<subseteq> free_region (arena s)"
                  "cells T T2 \<subseteq> free_region (arena s)"
                  unfolding pr by (rule scratch_in_free[OF sz _ fit]; simp)+
                have djs: "cells T M1 \<inter> cells T M2 = {}" "cells T M1 \<inter> cells T M3 = {}" "cells T M1 \<inter> cells T M4 = {}" "cells T M1 \<inter> cells T M5 = {}" "cells T M1 \<inter> cells T M6 = {}" "cells T M1 \<inter> cells T M7 = {}" "cells T M1 \<inter> cells T T1 = {}" "cells T M1 \<inter> cells T T2 = {}" "cells T M2 \<inter> cells T M3 = {}" "cells T M2 \<inter> cells T M4 = {}" "cells T M2 \<inter> cells T M5 = {}" "cells T M2 \<inter> cells T M6 = {}" "cells T M2 \<inter> cells T M7 = {}" "cells T M2 \<inter> cells T T1 = {}" "cells T M2 \<inter> cells T T2 = {}" "cells T M3 \<inter> cells T M4 = {}" "cells T M3 \<inter> cells T M5 = {}" "cells T M3 \<inter> cells T M6 = {}" "cells T M3 \<inter> cells T M7 = {}" "cells T M3 \<inter> cells T T1 = {}" "cells T M3 \<inter> cells T T2 = {}" "cells T M4 \<inter> cells T M5 = {}" "cells T M4 \<inter> cells T M6 = {}" "cells T M4 \<inter> cells T M7 = {}" "cells T M4 \<inter> cells T T1 = {}" "cells T M4 \<inter> cells T T2 = {}" "cells T M5 \<inter> cells T M6 = {}" "cells T M5 \<inter> cells T M7 = {}" "cells T M5 \<inter> cells T T1 = {}" "cells T M5 \<inter> cells T T2 = {}" "cells T M6 \<inter> cells T M7 = {}" "cells T M6 \<inter> cells T T1 = {}" "cells T M6 \<inter> cells T T2 = {}" "cells T M7 \<inter> cells T T1 = {}" "cells T M7 \<inter> cells T T2 = {}" "cells T T1 \<inter> cells T T2 = {}"
                  unfolding pr by (rule scratch_disjoint[OF sz]; simp)+
                have djfi: "cells T (quadrant T A 0 0 m) \<inter> free_region a1 = {}" "cells T (quadrant T A 0 m m) \<inter> free_region a1 = {}" "cells T (quadrant T A m 0 m) \<inter> free_region a1 = {}" "cells T (quadrant T A m m m) \<inter> free_region a1 = {}" "cells T (quadrant T B 0 0 m) \<inter> free_region a1 = {}" "cells T (quadrant T B 0 m m) \<inter> free_region a1 = {}" "cells T (quadrant T B m 0 m) \<inter> free_region a1 = {}" "cells T (quadrant T B m m m) \<inter> free_region a1 = {}"
                  using qsub ABCF fr1 by blast+
                have djfs: "cells T M1 \<inter> free_region a1 = {}" "cells T M2 \<inter> free_region a1 = {}" "cells T M3 \<inter> free_region a1 = {}" "cells T M4 \<inter> free_region a1 = {}" "cells T M5 \<inter> free_region a1 = {}" "cells T M6 \<inter> free_region a1 = {}" "cells T M7 \<inter> free_region a1 = {}" "cells T T1 \<inter> free_region a1 = {}" "cells T T2 \<inter> free_region a1 = {}"
                  unfolding pr a1_def o9_def by (rule scratch_free_disjoint[OF sz]; simp)+
                note dj0 = djs djfi djfs
                  dja[OF qsub(1) sub(1)] dja[OF qsub(1) sub(2)] dja[OF qsub(1) sub(3)] dja[OF qsub(1) sub(4)] dja[OF qsub(1) sub(5)] dja[OF qsub(1) sub(6)] dja[OF qsub(1) sub(7)] dja[OF qsub(1) sub(8)] dja[OF qsub(1) sub(9)] dja[OF qsub(2) sub(1)] dja[OF qsub(2) sub(2)] dja[OF qsub(2) sub(3)] dja[OF qsub(2) sub(4)] dja[OF qsub(2) sub(5)] dja[OF qsub(2) sub(6)] dja[OF qsub(2) sub(7)] dja[OF qsub(2) sub(8)] dja[OF qsub(2) sub(9)] dja[OF qsub(3) sub(1)] dja[OF qsub(3) sub(2)] dja[OF qsub(3) sub(3)] dja[OF qsub(3) sub(4)] dja[OF qsub(3) sub(5)] dja[OF qsub(3) sub(6)] dja[OF qsub(3) sub(7)] dja[OF qsub(3) sub(8)] dja[OF qsub(3) sub(9)] dja[OF qsub(4) sub(1)] dja[OF qsub(4) sub(2)] dja[OF qsub(4) sub(3)] dja[OF qsub(4) sub(4)] dja[OF qsub(4) sub(5)] dja[OF qsub(4) sub(6)] dja[OF qsub(4) sub(7)] dja[OF qsub(4) sub(8)] dja[OF qsub(4) sub(9)] dja[OF qsub(5) sub(1)] dja[OF qsub(5) sub(2)] dja[OF qsub(5) sub(3)] dja[OF qsub(5) sub(4)] dja[OF qsub(5) sub(5)] dja[OF qsub(5) sub(6)] dja[OF qsub(5) sub(7)] dja[OF qsub(5) sub(8)] dja[OF qsub(5) sub(9)] dja[OF qsub(6) sub(1)] dja[OF qsub(6) sub(2)] dja[OF qsub(6) sub(3)] dja[OF qsub(6) sub(4)] dja[OF qsub(6) sub(5)] dja[OF qsub(6) sub(6)] dja[OF qsub(6) sub(7)] dja[OF qsub(6) sub(8)] dja[OF qsub(6) sub(9)] dja[OF qsub(7) sub(1)] dja[OF qsub(7) sub(2)] dja[OF qsub(7) sub(3)] dja[OF qsub(7) sub(4)] dja[OF qsub(7) sub(5)] dja[OF qsub(7) sub(6)] dja[OF qsub(7) sub(7)] dja[OF qsub(7) sub(8)] dja[OF qsub(7) sub(9)] dja[OF qsub(8) sub(1)] dja[OF qsub(8) sub(2)] dja[OF qsub(8) sub(3)] dja[OF qsub(8) sub(4)] dja[OF qsub(8) sub(5)] dja[OF qsub(8) sub(6)] dja[OF qsub(8) sub(7)] dja[OF qsub(8) sub(8)] dja[OF qsub(8) sub(9)]
                note dj = dj0 dj0[unfolded Int_commute[of "cells T X" "cells T Y" for X Y]]
                have v: "\<lparr>data = data T1, rows = m, cols = m, stride = stride T1\<rparr> = T1"
                  "\<lparr>data = data T2, rows = m, cols = m, stride = stride T2\<rparr> = T2"
                  by (simp_all add: same_view shp)
                have ht: "heap t = heap s" "arena t = a1"
                  unfolding pr(11) a1_def o9_def by (simp_all add: alloc_step_pow)
                have inv0: "vinv T a1 ([((quadrant T A 0 0 m), a11), ((quadrant T A 0 m m), a12), ((quadrant T A m 0 m), a21), ((quadrant T A m m m), a22), ((quadrant T B 0 0 m), b11), ((quadrant T B 0 m m), b12), ((quadrant T B m 0 m), b21), ((quadrant T B m m m), b22)]) t"
                  unfolding vinv_def ht
                  by (simp add: holds_def elem_addr_quadrant rd_def
                      a11_def a12_def a21_def a22_def b11_def b12_def b21_def b22_def)
                have ih: "value_ok T ops X Y Z leaf t'" if "rows X = m" "pre_ok T X Y Z (arena t')"
                  for X Y Z and t' :: "'a machine"
                  using IH[of m X Y Z t'] that m nA by simp
                have "cells T C \<inter> (cells T M1 \<union> cells T M2 \<union> cells T M3 \<union> cells T M4
                    \<union> cells T M5 \<union> cells T M6 \<union> cells T M7) = {}"
                  using sub ABCF by blast
                then have qa: "quad_apart T (quadrant T C 0 0 m) (quadrant T C 0 m m)
                    (quadrant T C m 0 m) (quadrant T C m m m)
                    (cells T M1 \<union> cells T M2 \<union> cells T M3 \<union> cells T M4
                    \<union> cells T M5 \<union> cells T M6 \<union> cells T M7)"
                  using shpA m by (intro quad_apart_quadrants[OF sz stC]) simp_all
                show ?thesis
                  unfolding v
                  apply (rule vstep_mat_add[where m = m and Xm = "a11" and Ym = "a22"
                        and H' = "[(T1, (\<lambda>i j. a11 i j + a22 i j)), ((quadrant T A 0 0 m), a11), ((quadrant T A 0 m m), a12), ((quadrant T A m 0 m), a21), ((quadrant T A m m m), a22), ((quadrant T B 0 0 m), b11), ((quadrant T B 0 m m), b12), ((quadrant T B m 0 m), b21), ((quadrant T B m m m), b22)]"])
                             apply (rule inv0)
                            apply (simp (no_asm))
                           apply (simp (no_asm))
                          apply (simp_all only: shp)[6]
                    apply (simp (no_asm) add: writes_apart_def inj dj Int_Un_distrib Int_Un_distrib2)
                   apply (simp (no_asm) add: dj Int_Un_distrib Int_Un_distrib2)
                  apply (rule vstep_mat_add[where m = m and Xm = "b11" and Ym = "b22"
                        and H' = "[(T2, (\<lambda>i j. b11 i j + b22 i j)), (T1, (\<lambda>i j. a11 i j + a22 i j)), ((quadrant T A 0 0 m), a11), ((quadrant T A 0 m m), a12), ((quadrant T A m 0 m), a21), ((quadrant T A m m m), a22), ((quadrant T B 0 0 m), b11), ((quadrant T B 0 m m), b12), ((quadrant T B m 0 m), b21), ((quadrant T B m m m), b22)]"])
                             apply assumption
                            apply (simp (no_asm))
                           apply (simp (no_asm))
                          apply (simp_all only: shp)[6]
                    apply (simp (no_asm) add: writes_apart_def inj dj Int_Un_distrib Int_Un_distrib2)
                   apply (simp (no_asm) add: dj Int_Un_distrib Int_Un_distrib2)
                  apply (rule vstep_rec[where m = m and Xm = "(\<lambda>i j. a11 i j + a22 i j)" and Ym = "(\<lambda>i j. b11 i j + b22 i j)"
                        and H' = "[(M1, (mat_mul m (\<lambda>i j. a11 i j + a22 i j) (\<lambda>i j. b11 i j + b22 i j))), ((quadrant T A 0 0 m), a11), ((quadrant T A 0 m m), a12), ((quadrant T A m 0 m), a21), ((quadrant T A m m m), a22), ((quadrant T B 0 0 m), b11), ((quadrant T B 0 m m), b12), ((quadrant T B m 0 m), b21), ((quadrant T B m m m), b22)]", OF sz])
                              apply (rule ih, simp only: shp, assumption)
                             apply assumption
                            apply (simp (no_asm))
                           apply (simp (no_asm))
                          apply (simp_all only: shp)[6]
                    apply (simp (no_asm) add: pre_ok_def st dj Int_Un_distrib Int_Un_distrib2)
                   apply (simp (no_asm) add: dj Int_Un_distrib Int_Un_distrib2)
                  apply (rule vstep_mat_add[where m = m and Xm = "a21" and Ym = "a22"
                        and H' = "[(T1, (\<lambda>i j. a21 i j + a22 i j)), (M1, (mat_mul m (\<lambda>i j. a11 i j + a22 i j) (\<lambda>i j. b11 i j + b22 i j))), ((quadrant T A 0 0 m), a11), ((quadrant T A 0 m m), a12), ((quadrant T A m 0 m), a21), ((quadrant T A m m m), a22), ((quadrant T B 0 0 m), b11), ((quadrant T B 0 m m), b12), ((quadrant T B m 0 m), b21), ((quadrant T B m m m), b22)]"])
                             apply assumption
                            apply (simp (no_asm))
                           apply (simp (no_asm))
                          apply (simp_all only: shp)[6]
                    apply (simp (no_asm) add: writes_apart_def inj dj Int_Un_distrib Int_Un_distrib2)
                   apply (simp (no_asm) add: dj Int_Un_distrib Int_Un_distrib2)
                  apply (rule vstep_rec[where m = m and Xm = "(\<lambda>i j. a21 i j + a22 i j)" and Ym = "b11"
                        and H' = "[(M2, (mat_mul m (\<lambda>i j. a21 i j + a22 i j) b11)), (M1, (mat_mul m (\<lambda>i j. a11 i j + a22 i j) (\<lambda>i j. b11 i j + b22 i j))), ((quadrant T A 0 0 m), a11), ((quadrant T A 0 m m), a12), ((quadrant T A m 0 m), a21), ((quadrant T A m m m), a22), ((quadrant T B 0 0 m), b11), ((quadrant T B 0 m m), b12), ((quadrant T B m 0 m), b21), ((quadrant T B m m m), b22)]", OF sz])
                              apply (rule ih, simp only: shp, assumption)
                             apply assumption
                            apply (simp (no_asm))
                           apply (simp (no_asm))
                          apply (simp_all only: shp)[6]
                    apply (simp (no_asm) add: pre_ok_def st dj Int_Un_distrib Int_Un_distrib2)
                   apply (simp (no_asm) add: dj Int_Un_distrib Int_Un_distrib2)
                  apply (rule vstep_mat_sub[where m = m and Xm = "b12" and Ym = "b22"
                        and H' = "[(T2, (\<lambda>i j. b12 i j - b22 i j)), (M2, (mat_mul m (\<lambda>i j. a21 i j + a22 i j) b11)), (M1, (mat_mul m (\<lambda>i j. a11 i j + a22 i j) (\<lambda>i j. b11 i j + b22 i j))), ((quadrant T A 0 0 m), a11), ((quadrant T A 0 m m), a12), ((quadrant T A m 0 m), a21), ((quadrant T A m m m), a22), ((quadrant T B 0 0 m), b11), ((quadrant T B 0 m m), b12), ((quadrant T B m 0 m), b21), ((quadrant T B m m m), b22)]"])
                             apply assumption
                            apply (simp (no_asm))
                           apply (simp (no_asm))
                          apply (simp_all only: shp)[6]
                    apply (simp (no_asm) add: writes_apart_def inj dj Int_Un_distrib Int_Un_distrib2)
                   apply (simp (no_asm) add: dj Int_Un_distrib Int_Un_distrib2)
                  apply (rule vstep_rec[where m = m and Xm = "a11" and Ym = "(\<lambda>i j. b12 i j - b22 i j)"
                        and H' = "[(M3, (mat_mul m a11 (\<lambda>i j. b12 i j - b22 i j))), (M2, (mat_mul m (\<lambda>i j. a21 i j + a22 i j) b11)), (M1, (mat_mul m (\<lambda>i j. a11 i j + a22 i j) (\<lambda>i j. b11 i j + b22 i j))), ((quadrant T A 0 0 m), a11), ((quadrant T A 0 m m), a12), ((quadrant T A m 0 m), a21), ((quadrant T A m m m), a22), ((quadrant T B 0 0 m), b11), ((quadrant T B 0 m m), b12), ((quadrant T B m 0 m), b21), ((quadrant T B m m m), b22)]", OF sz])
                              apply (rule ih, simp only: shp, assumption)
                             apply assumption
                            apply (simp (no_asm))
                           apply (simp (no_asm))
                          apply (simp_all only: shp)[6]
                    apply (simp (no_asm) add: pre_ok_def st dj Int_Un_distrib Int_Un_distrib2)
                   apply (simp (no_asm) add: dj Int_Un_distrib Int_Un_distrib2)
                  apply (rule vstep_mat_sub[where m = m and Xm = "b21" and Ym = "b11"
                        and H' = "[(T2, (\<lambda>i j. b21 i j - b11 i j)), (M3, (mat_mul m a11 (\<lambda>i j. b12 i j - b22 i j))), (M2, (mat_mul m (\<lambda>i j. a21 i j + a22 i j) b11)), (M1, (mat_mul m (\<lambda>i j. a11 i j + a22 i j) (\<lambda>i j. b11 i j + b22 i j))), ((quadrant T A 0 0 m), a11), ((quadrant T A 0 m m), a12), ((quadrant T A m 0 m), a21), ((quadrant T A m m m), a22), ((quadrant T B 0 0 m), b11), ((quadrant T B 0 m m), b12), ((quadrant T B m 0 m), b21), ((quadrant T B m m m), b22)]"])
                             apply assumption
                            apply (simp (no_asm))
                           apply (simp (no_asm))
                          apply (simp_all only: shp)[6]
                    apply (simp (no_asm) add: writes_apart_def inj dj Int_Un_distrib Int_Un_distrib2)
                   apply (simp (no_asm) add: dj Int_Un_distrib Int_Un_distrib2)
                  apply (rule vstep_rec[where m = m and Xm = "a22" and Ym = "(\<lambda>i j. b21 i j - b11 i j)"
                        and H' = "[(M4, (mat_mul m a22 (\<lambda>i j. b21 i j - b11 i j))), (M3, (mat_mul m a11 (\<lambda>i j. b12 i j - b22 i j))), (M2, (mat_mul m (\<lambda>i j. a21 i j + a22 i j) b11)), (M1, (mat_mul m (\<lambda>i j. a11 i j + a22 i j) (\<lambda>i j. b11 i j + b22 i j))), ((quadrant T A 0 0 m), a11), ((quadrant T A 0 m m), a12), ((quadrant T A m 0 m), a21), ((quadrant T A m m m), a22), ((quadrant T B 0 0 m), b11), ((quadrant T B 0 m m), b12), ((quadrant T B m 0 m), b21), ((quadrant T B m m m), b22)]", OF sz])
                              apply (rule ih, simp only: shp, assumption)
                             apply assumption
                            apply (simp (no_asm))
                           apply (simp (no_asm))
                          apply (simp_all only: shp)[6]
                    apply (simp (no_asm) add: pre_ok_def st dj Int_Un_distrib Int_Un_distrib2)
                   apply (simp (no_asm) add: dj Int_Un_distrib Int_Un_distrib2)
                  apply (rule vstep_mat_add[where m = m and Xm = "a11" and Ym = "a12"
                        and H' = "[(T1, (\<lambda>i j. a11 i j + a12 i j)), (M4, (mat_mul m a22 (\<lambda>i j. b21 i j - b11 i j))), (M3, (mat_mul m a11 (\<lambda>i j. b12 i j - b22 i j))), (M2, (mat_mul m (\<lambda>i j. a21 i j + a22 i j) b11)), (M1, (mat_mul m (\<lambda>i j. a11 i j + a22 i j) (\<lambda>i j. b11 i j + b22 i j))), ((quadrant T A 0 0 m), a11), ((quadrant T A 0 m m), a12), ((quadrant T A m 0 m), a21), ((quadrant T A m m m), a22), ((quadrant T B 0 0 m), b11), ((quadrant T B 0 m m), b12), ((quadrant T B m 0 m), b21), ((quadrant T B m m m), b22)]"])
                             apply assumption
                            apply (simp (no_asm))
                           apply (simp (no_asm))
                          apply (simp_all only: shp)[6]
                    apply (simp (no_asm) add: writes_apart_def inj dj Int_Un_distrib Int_Un_distrib2)
                   apply (simp (no_asm) add: dj Int_Un_distrib Int_Un_distrib2)
                  apply (rule vstep_rec[where m = m and Xm = "(\<lambda>i j. a11 i j + a12 i j)" and Ym = "b22"
                        and H' = "[(M5, (mat_mul m (\<lambda>i j. a11 i j + a12 i j) b22)), (M4, (mat_mul m a22 (\<lambda>i j. b21 i j - b11 i j))), (M3, (mat_mul m a11 (\<lambda>i j. b12 i j - b22 i j))), (M2, (mat_mul m (\<lambda>i j. a21 i j + a22 i j) b11)), (M1, (mat_mul m (\<lambda>i j. a11 i j + a22 i j) (\<lambda>i j. b11 i j + b22 i j))), ((quadrant T A 0 0 m), a11), ((quadrant T A 0 m m), a12), ((quadrant T A m 0 m), a21), ((quadrant T A m m m), a22), ((quadrant T B 0 0 m), b11), ((quadrant T B 0 m m), b12), ((quadrant T B m 0 m), b21), ((quadrant T B m m m), b22)]", OF sz])
                              apply (rule ih, simp only: shp, assumption)
                             apply assumption
                            apply (simp (no_asm))
                           apply (simp (no_asm))
                          apply (simp_all only: shp)[6]
                    apply (simp (no_asm) add: pre_ok_def st dj Int_Un_distrib Int_Un_distrib2)
                   apply (simp (no_asm) add: dj Int_Un_distrib Int_Un_distrib2)
                  apply (rule vstep_mat_sub[where m = m and Xm = "a21" and Ym = "a11"
                        and H' = "[(T1, (\<lambda>i j. a21 i j - a11 i j)), (M5, (mat_mul m (\<lambda>i j. a11 i j + a12 i j) b22)), (M4, (mat_mul m a22 (\<lambda>i j. b21 i j - b11 i j))), (M3, (mat_mul m a11 (\<lambda>i j. b12 i j - b22 i j))), (M2, (mat_mul m (\<lambda>i j. a21 i j + a22 i j) b11)), (M1, (mat_mul m (\<lambda>i j. a11 i j + a22 i j) (\<lambda>i j. b11 i j + b22 i j))), ((quadrant T A 0 0 m), a11), ((quadrant T A 0 m m), a12), ((quadrant T A m 0 m), a21), ((quadrant T A m m m), a22), ((quadrant T B 0 0 m), b11), ((quadrant T B 0 m m), b12), ((quadrant T B m 0 m), b21), ((quadrant T B m m m), b22)]"])
                             apply assumption
                            apply (simp (no_asm))
                           apply (simp (no_asm))
                          apply (simp_all only: shp)[6]
                    apply (simp (no_asm) add: writes_apart_def inj dj Int_Un_distrib Int_Un_distrib2)
                   apply (simp (no_asm) add: dj Int_Un_distrib Int_Un_distrib2)
                  apply (rule vstep_mat_add[where m = m and Xm = "b11" and Ym = "b12"
                        and H' = "[(T2, (\<lambda>i j. b11 i j + b12 i j)), (T1, (\<lambda>i j. a21 i j - a11 i j)), (M5, (mat_mul m (\<lambda>i j. a11 i j + a12 i j) b22)), (M4, (mat_mul m a22 (\<lambda>i j. b21 i j - b11 i j))), (M3, (mat_mul m a11 (\<lambda>i j. b12 i j - b22 i j))), (M2, (mat_mul m (\<lambda>i j. a21 i j + a22 i j) b11)), (M1, (mat_mul m (\<lambda>i j. a11 i j + a22 i j) (\<lambda>i j. b11 i j + b22 i j))), ((quadrant T A 0 0 m), a11), ((quadrant T A 0 m m), a12), ((quadrant T A m 0 m), a21), ((quadrant T A m m m), a22), ((quadrant T B 0 0 m), b11), ((quadrant T B 0 m m), b12), ((quadrant T B m 0 m), b21), ((quadrant T B m m m), b22)]"])
                             apply assumption
                            apply (simp (no_asm))
                           apply (simp (no_asm))
                          apply (simp_all only: shp)[6]
                    apply (simp (no_asm) add: writes_apart_def inj dj Int_Un_distrib Int_Un_distrib2)
                   apply (simp (no_asm) add: dj Int_Un_distrib Int_Un_distrib2)
                  apply (rule vstep_rec[where m = m and Xm = "(\<lambda>i j. a21 i j - a11 i j)" and Ym = "(\<lambda>i j. b11 i j + b12 i j)"
                        and H' = "[(M6, (mat_mul m (\<lambda>i j. a21 i j - a11 i j) (\<lambda>i j. b11 i j + b12 i j))), (M5, (mat_mul m (\<lambda>i j. a11 i j + a12 i j) b22)), (M4, (mat_mul m a22 (\<lambda>i j. b21 i j - b11 i j))), (M3, (mat_mul m a11 (\<lambda>i j. b12 i j - b22 i j))), (M2, (mat_mul m (\<lambda>i j. a21 i j + a22 i j) b11)), (M1, (mat_mul m (\<lambda>i j. a11 i j + a22 i j) (\<lambda>i j. b11 i j + b22 i j))), ((quadrant T A 0 0 m), a11), ((quadrant T A 0 m m), a12), ((quadrant T A m 0 m), a21), ((quadrant T A m m m), a22), ((quadrant T B 0 0 m), b11), ((quadrant T B 0 m m), b12), ((quadrant T B m 0 m), b21), ((quadrant T B m m m), b22)]", OF sz])
                              apply (rule ih, simp only: shp, assumption)
                             apply assumption
                            apply (simp (no_asm))
                           apply (simp (no_asm))
                          apply (simp_all only: shp)[6]
                    apply (simp (no_asm) add: pre_ok_def st dj Int_Un_distrib Int_Un_distrib2)
                   apply (simp (no_asm) add: dj Int_Un_distrib Int_Un_distrib2)
                  apply (rule vstep_mat_sub[where m = m and Xm = "a12" and Ym = "a22"
                        and H' = "[(T1, (\<lambda>i j. a12 i j - a22 i j)), (M6, (mat_mul m (\<lambda>i j. a21 i j - a11 i j) (\<lambda>i j. b11 i j + b12 i j))), (M5, (mat_mul m (\<lambda>i j. a11 i j + a12 i j) b22)), (M4, (mat_mul m a22 (\<lambda>i j. b21 i j - b11 i j))), (M3, (mat_mul m a11 (\<lambda>i j. b12 i j - b22 i j))), (M2, (mat_mul m (\<lambda>i j. a21 i j + a22 i j) b11)), (M1, (mat_mul m (\<lambda>i j. a11 i j + a22 i j) (\<lambda>i j. b11 i j + b22 i j))), ((quadrant T A 0 0 m), a11), ((quadrant T A 0 m m), a12), ((quadrant T A m 0 m), a21), ((quadrant T A m m m), a22), ((quadrant T B 0 0 m), b11), ((quadrant T B 0 m m), b12), ((quadrant T B m 0 m), b21), ((quadrant T B m m m), b22)]"])
                             apply assumption
                            apply (simp (no_asm))
                           apply (simp (no_asm))
                          apply (simp_all only: shp)[6]
                    apply (simp (no_asm) add: writes_apart_def inj dj Int_Un_distrib Int_Un_distrib2)
                   apply (simp (no_asm) add: dj Int_Un_distrib Int_Un_distrib2)
                  apply (rule vstep_mat_add[where m = m and Xm = "b21" and Ym = "b22"
                        and H' = "[(T2, (\<lambda>i j. b21 i j + b22 i j)), (T1, (\<lambda>i j. a12 i j - a22 i j)), (M6, (mat_mul m (\<lambda>i j. a21 i j - a11 i j) (\<lambda>i j. b11 i j + b12 i j))), (M5, (mat_mul m (\<lambda>i j. a11 i j + a12 i j) b22)), (M4, (mat_mul m a22 (\<lambda>i j. b21 i j - b11 i j))), (M3, (mat_mul m a11 (\<lambda>i j. b12 i j - b22 i j))), (M2, (mat_mul m (\<lambda>i j. a21 i j + a22 i j) b11)), (M1, (mat_mul m (\<lambda>i j. a11 i j + a22 i j) (\<lambda>i j. b11 i j + b22 i j))), ((quadrant T A 0 0 m), a11), ((quadrant T A 0 m m), a12), ((quadrant T A m 0 m), a21), ((quadrant T A m m m), a22), ((quadrant T B 0 0 m), b11), ((quadrant T B 0 m m), b12), ((quadrant T B m 0 m), b21), ((quadrant T B m m m), b22)]"])
                             apply assumption
                            apply (simp (no_asm))
                           apply (simp (no_asm))
                          apply (simp_all only: shp)[6]
                    apply (simp (no_asm) add: writes_apart_def inj dj Int_Un_distrib Int_Un_distrib2)
                   apply (simp (no_asm) add: dj Int_Un_distrib Int_Un_distrib2)
                  apply (rule vstep_rec[where m = m and Xm = "(\<lambda>i j. a12 i j - a22 i j)" and Ym = "(\<lambda>i j. b21 i j + b22 i j)"
                        and H' = "[(M7, (mat_mul m (\<lambda>i j. a12 i j - a22 i j) (\<lambda>i j. b21 i j + b22 i j))), (M6, (mat_mul m (\<lambda>i j. a21 i j - a11 i j) (\<lambda>i j. b11 i j + b12 i j))), (M5, (mat_mul m (\<lambda>i j. a11 i j + a12 i j) b22)), (M4, (mat_mul m a22 (\<lambda>i j. b21 i j - b11 i j))), (M3, (mat_mul m a11 (\<lambda>i j. b12 i j - b22 i j))), (M2, (mat_mul m (\<lambda>i j. a21 i j + a22 i j) b11)), (M1, (mat_mul m (\<lambda>i j. a11 i j + a22 i j) (\<lambda>i j. b11 i j + b22 i j))), ((quadrant T A 0 0 m), a11), ((quadrant T A 0 m m), a12), ((quadrant T A m 0 m), a21), ((quadrant T A m m m), a22), ((quadrant T B 0 0 m), b11), ((quadrant T B 0 m m), b12), ((quadrant T B m 0 m), b21), ((quadrant T B m m m), b22)]", OF sz])
                              apply (rule ih, simp only: shp, assumption)
                             apply assumption
                            apply (simp (no_asm))
                           apply (simp (no_asm))
                          apply (simp_all only: shp)[6]
                    apply (simp (no_asm) add: pre_ok_def st dj Int_Un_distrib Int_Un_distrib2)
                   apply (simp (no_asm) add: dj Int_Un_distrib Int_Un_distrib2)
                  apply (rule vstep_combine[where m = m and ?p1.0 = "(mat_mul m (\<lambda>i j. a11 i j + a22 i j) (\<lambda>i j. b11 i j + b22 i j))" and ?p2.0 = "(mat_mul m (\<lambda>i j. a21 i j + a22 i j) b11)"
                        and ?p3.0 = "(mat_mul m a11 (\<lambda>i j. b12 i j - b22 i j))" and ?p4.0 = "(mat_mul m a22 (\<lambda>i j. b21 i j - b11 i j))"
                        and ?p5.0 = "(mat_mul m (\<lambda>i j. a11 i j + a12 i j) b22)" and ?p6.0 = "(mat_mul m (\<lambda>i j. a21 i j - a11 i j) (\<lambda>i j. b11 i j + b12 i j))"
                        and ?p7.0 = "(mat_mul m (\<lambda>i j. a12 i j - a22 i j) (\<lambda>i j. b21 i j + b22 i j))"])
                                                 apply assumption
                                                apply (simp_all (no_asm))[7]
                                         apply (simp_all only: shp)[22]
                   apply (rule qa)
                  apply (rule vstep_rollback)
                  apply (rule fin; assumption)
                  done
              qed
              done
          qed
        qed
      qed
    qed
  qed
qed

lemma strassen_rec_value:
  fixes s :: "('a::ring) machine"
  assumes "0 < sizeof_T T" and "pre_ok T A B C (arena s)"
    and "strassen_rec T ops A B C leaf s = Done u t"
  shows "holds T C (heap t) (mat_mul (rows A) (rd T A (heap s)) (rd T B (heap s)))"
  using strassen_rec_value_aux[OF assms(1) refl assms(2), of ops leaf] assms(3)
  by (simp add: value_ok_def wp_def)

lemma sum_lessThan_2: "(\<Sum>p<(2::nat). f p) = f 0 + (f 1 :: 'a::comm_monoid_add)"
proof -
  have "{..<2::nat} = {0, 1}" by auto
  then show ?thesis by simp
qed

text \<open>
  Claim C1, for the recursive engine and the pre-sized entry point.  Let \<open>A\<close>, \<open>B\<close>, \<open>C\<close>
  be \<open>N\<close>-by-\<open>N\<close> views over scalars of a ring, the elements of \<open>C\<close> distinct objects
  (\<open>stride >= cols\<close>) apart from those of \<open>A\<close> and \<open>B\<close>, and all three apart from the
  unused part of the arena.  Then \<open>gemm_naive\<close> returns with \<open>C(i, j)\<close> equal to the sum
  over \<open>p < N\<close> of \<open>A(i, p) * B(p, j)\<close>, and every returning run of \<open>strassen_rec\<close> or of
  \<open>gemm_strassen_pow2_prealloc\<close> from the same state, with any leaf size, leaves exactly
  the same values in \<open>C\<close>.  When \<open>N\<close> is a power of two, the leaf size is at least 1 and
  the arena has room for the scratch of the recursion, \<open>gemm_strassen_pow2_prealloc\<close>
  returns.  Equality is exact: the scalars are those of a ring, not floating-point
  numbers.
\<close>

theorem strassen_matches_naive:
  fixes s :: "('a::ring) machine"
  assumes "0 < sizeof_T T"
    and "rows A = N" "cols A = N" "rows B = N" "cols B = N" "rows C = N" "cols C = N"
    and "cols C \<le> stride C"
    and "cells T C \<inter> (cells T A \<union> cells T B) = {}"
    and "(cells T A \<union> cells T B \<union> cells T C) \<inter> free_region (arena s) = {}"
  shows "\<exists>tn. gemm_naive T ops' A B C s = Done () tn
      \<and> (\<forall>i<N. \<forall>j<N. heap tn (elem_addr T C i j)
            = (\<Sum>p<N. heap s (elem_addr T A i p) * heap s (elem_addr T B p j)))
      \<and> (\<forall>u t. strassen_rec T ops A B C leaf s = Done u t
               \<or> gemm_strassen_pow2_prealloc T ops A B C
                    \<lparr>leaf_size = leaf, pad_to_power_of_two = pad\<rparr> s = Done u t
            \<longrightarrow> (\<forall>i<N. \<forall>j<N. heap t (elem_addr T C i j) = heap tn (elem_addr T C i j)))
      \<and> (is_power_of_two N \<and> 1 \<le> leaf
           \<and> usage T leaf N (off_bytes (arena s)) \<le> cap_bytes (arena s)
            \<longrightarrow> (\<exists>t. gemm_strassen_pow2_prealloc T ops A B C
                      \<lparr>leaf_size = leaf, pad_to_power_of_two = pad\<rparr> s = Done () t))"
proof -
  let ?cfg = "\<lparr>leaf_size = leaf, pad_to_power_of_two = pad\<rparr>"
  let ?P = "\<lambda>i j. \<Sum>p<N. heap s (elem_addr T A i p) * heap s (elem_addr T B p j)"
  note sz = assms(1)
  have pre: "pre_ok T A B C (arena s)" using assms(8-10) by (simp add: pre_ok_def)
  have wa: "writes_apart T C (cells T A \<union> cells T B)"
    using assms(9) inj_view_stride[OF sz assms(8)] by (simp add: writes_apart_def)
  have "wp (gemm_naive T ops' A B C)
     (\<lambda>_ t. touches ops' (of_nat (rows A * cols B * cols A)) (of_nat (rows A * cols B * (cols A - 1)))
               (cells T C) s t
        \<and> (writes_apart T C (cells T A \<union> cells T B) \<longrightarrow>
            (\<forall>i<rows A. \<forall>j<cols B. heap t (elem_addr T C i j)
               = (\<Sum>p<cols A. heap s (elem_addr T A i p) * heap s (elem_addr T B p j)))))
     (\<lambda>_ _. False) s"
    by (rule gemm_naive_spec) (simp_all add: assms)
  from wp_DoneD[OF this] wa obtain tn where
    tn: "gemm_naive T ops' A B C s = Done () tn"
    and vn: "\<forall>i<N. \<forall>j<N. heap tn (elem_addr T C i j) = ?P i j"
    by (auto simp: assms)
  have rec: "\<forall>i<N. \<forall>j<N. heap t (elem_addr T C i j) = heap tn (elem_addr T C i j)"
    if "strassen_rec T ops A B C leaf s = Done u t" for u t
  proof -
    from strassen_rec_value[OF sz pre that]
    have "\<forall>i<N. \<forall>j<N. heap t (elem_addr T C i j) = ?P i j"
      by (simp add: holds_def mat_mul_def rd_def assms)
    with vn show ?thesis by simp
  qed
  have both: "\<forall>i<N. \<forall>j<N. heap t (elem_addr T C i j) = heap tn (elem_addr T C i j)"
    if "strassen_rec T ops A B C leaf s = Done u t
        \<or> gemm_strassen_pow2_prealloc T ops A B C ?cfg s = Done u t" for u t
    using that prealloc_cases[of T ops A B C ?cfg s] rec[of u t] by auto
  have ret: "\<exists>t. gemm_strassen_pow2_prealloc T ops A B C ?cfg s = Done () t"
    if h: "is_power_of_two N \<and> 1 \<le> leaf
           \<and> usage T leaf N (off_bytes (arena s)) \<le> cap_bytes (arena s)"
  proof -
    have eq: "gemm_strassen_pow2_prealloc T ops A B C ?cfg s = strassen_rec T ops A B C leaf s"
      using prealloc_eq[of A B C T ops ?cfg s] h assms by simp
    have "\<exists>k. rows A = 2 ^ k" using h is_power_of_two_iff[of N] assms(2) by blast
    then have sh: "shape_ok A B C leaf" using h assms unfolding shape_ok_def by simp
    have "usage T leaf (rows A) (off_bytes (arena s)) \<le> cap_bytes (arena s)"
      using h assms(2) by simp
    from strassen_rec_returns[OF sz sh this, of ops] eq show ?thesis by simp
  qed
  show ?thesis using tn vn both ret by blast
qed

lemma cells_2x2:
  "x \<in> cells double_T A2 \<Longrightarrow> x < 32"
  "x \<in> cells double_T B2 \<Longrightarrow> 32 \<le> x \<and> x < 64"
  "x \<in> cells double_T C2 \<Longrightarrow> 64 \<le> x \<and> x < 96"
  by (auto simp: cells_def elem_addr_def A2_def B2_def C2_def double_T_def)

theorem strassen_matches_naive_witness:
  "0 < sizeof_T double_T
   \<and> (rows A2 = 2 \<and> cols A2 = 2 \<and> rows B2 = 2 \<and> cols B2 = 2 \<and> rows C2 = 2 \<and> cols C2 = 2)
   \<and> cols C2 \<le> stride C2
   \<and> cells double_T C2 \<inter> (cells double_T A2 \<union> cells double_T B2) = {}
   \<and> (cells double_T A2 \<union> cells double_T B2 \<union> cells double_T C2) \<inter> free_region (arena state2) = {}
   \<and> is_power_of_two 2 \<and> (1::nat) \<le> 1
   \<and> usage double_T 1 2 (off_bytes (arena state2)) \<le> cap_bytes (arena state2)
   \<and> (\<exists>t. gemm_strassen_pow2_prealloc double_T True A2 B2 C2
             \<lparr>leaf_size = 1, pad_to_power_of_two = False\<rparr> state2 = Done () t
        \<and> heap t (elem_addr double_T C2 0 0) = 19 \<and> heap t (elem_addr double_T C2 0 1) = 22
        \<and> heap t (elem_addr double_T C2 1 0) = 43 \<and> heap t (elem_addr double_T C2 1 1) = 50)
   \<and> (\<exists>tn. gemm_naive double_T True A2 B2 C2 state2 = Done () tn
        \<and> heap tn (elem_addr double_T C2 0 0) = 19 \<and> heap tn (elem_addr double_T C2 0 1) = 22
        \<and> heap tn (elem_addr double_T C2 1 0) = 43 \<and> heap tn (elem_addr double_T C2 1 1) = 50)"
proof -
  let ?cfg = "\<lparr>leaf_size = 1, pad_to_power_of_two = False\<rparr>"
  have h1: "0 < sizeof_T double_T" by (simp add: double_T_def)
  have h2: "rows A2 = 2" "cols A2 = 2" "rows B2 = 2" "cols B2 = 2" "rows C2 = 2" "cols C2 = 2"
    by (simp_all add: A2_def B2_def C2_def)
  have h3: "cols C2 \<le> stride C2" by (simp add: C2_def)
  have h4: "cells double_T C2 \<inter> (cells double_T A2 \<union> cells double_T B2) = {}"
    using cells_2x2 by fastforce
  have h5: "(cells double_T A2 \<union> cells double_T B2 \<union> cells double_T C2)
      \<inter> free_region (arena state2) = {}"
    using cells_2x2 by (fastforce simp: free_region_def state2_def arena2_def)
  have h6: "is_power_of_two 2 \<and> (1::nat) \<le> 1
      \<and> usage double_T 1 2 (off_bytes (arena state2)) \<le> cap_bytes (arena state2)"
    using is_power_of_two_2 usage_2_double by (simp add: state2_def arena2_def)
  from strassen_matches_naive[OF h1 h2 h3 h4 h5, where ops' = True and ops = True
      and leaf = 1 and pad = False]
  obtain tn where tn: "gemm_naive double_T True A2 B2 C2 state2 = Done () tn"
    and vn: "\<forall>i<2. \<forall>j<2. heap tn (elem_addr double_T C2 i j)
            = (\<Sum>p<2. heap state2 (elem_addr double_T A2 i p) * heap state2 (elem_addr double_T B2 p j))"
    and same: "\<And>u t. gemm_strassen_pow2_prealloc double_T True A2 B2 C2 ?cfg state2 = Done u t
            \<Longrightarrow> (\<forall>i<2. \<forall>j<2. heap t (elem_addr double_T C2 i j) = heap tn (elem_addr double_T C2 i j))"
    and ret: "is_power_of_two 2 \<and> (1::nat) \<le> 1
           \<and> usage double_T 1 2 (off_bytes (arena state2)) \<le> cap_bytes (arena state2)
            \<Longrightarrow> (\<exists>t. gemm_strassen_pow2_prealloc double_T True A2 B2 C2 ?cfg state2 = Done () t)"
    by blast
  from ret[OF h6] obtain t where
    t: "gemm_strassen_pow2_prealloc double_T True A2 B2 C2 ?cfg state2 = Done () t" by blast
  have n: "heap tn (elem_addr double_T C2 0 0) = 19" "heap tn (elem_addr double_T C2 0 1) = 22"
    "heap tn (elem_addr double_T C2 1 0) = 43" "heap tn (elem_addr double_T C2 1 1) = 50"
    using vn[rule_format, of 0 0] vn[rule_format, of 0 1] vn[rule_format, of 1 0]
      vn[rule_format, of 1 1]
    by (simp_all add: sum_lessThan_2 elem_addr_def A2_def B2_def C2_def double_T_def
        state2_def heap2_def)
  have s: "heap t (elem_addr double_T C2 0 0) = 19" "heap t (elem_addr double_T C2 0 1) = 22"
    "heap t (elem_addr double_T C2 1 0) = 43" "heap t (elem_addr double_T C2 1 1) = 50"
    using same[OF t, rule_format, of 0 0] same[OF t, rule_format, of 0 1]
      same[OF t, rule_format, of 1 0] same[OF t, rule_format, of 1 1] n by simp_all
  show ?thesis
    using h1 h2 h3 h4 h5 h6 t tn n s by (intro conjI exI[of _ t] exI[of _ tn]) simp_all
qed

section \<open>Rollback, subviews and empty inputs\<close>

text \<open>
  Claim C8, as amended.  \<open>ScratchArena::rollback(m)\<close> throws \<open>invalid_argument\<close>
  exactly when \<open>m\<close> is greater than the current offset, and then the arena (the whole
  state) is unchanged; otherwise it succeeds and sets the offset to \<open>m\<close>.  A mark is a
  plain offset: whether it was obtained from this arena or from another one plays no
  part, so a foreign mark that does not exceed the current offset is accepted.
\<close>

theorem rollback_checks_offset_only:
  "(m > off_bytes (arena s) \<longrightarrow>
      arena_rollback m s = Fail (InvalidArgument ''ScratchArena::rollback: mark out of range'') s)
   \<and> (m \<le> off_bytes (arena s) \<longrightarrow>
      arena_rollback m s = Done () (s\<lparr>arena := (arena s)\<lparr>off_bytes := m\<rparr>\<rparr>))
   \<and> (m \<le> off_bytes a \<longrightarrow> rollback m a = Inr (a\<lparr>off_bytes := m\<rparr>))
   \<and> (m > off_bytes a \<longrightarrow> (\<exists>e. rollback m a = Inl e))"
  by (simp add: arena_rollback_def rollback_def)

theorem rollback_checks_offset_only_witness:
  "(2000 > off_bytes (arena state2)
      \<and> arena_rollback 2000 state2
          = Fail (InvalidArgument ''ScratchArena::rollback: mark out of range'') state2)
   \<and> (0 \<le> off_bytes (arena state2)
      \<and> arena_rollback 0 state2 = Done () (state2\<lparr>arena := (arena state2)\<lparr>off_bytes := 0\<rparr>\<rparr>))
   \<and> (0 \<le> off_bytes \<lparr>buf = 4096, cap_bytes = 1024, off_bytes = 64\<rparr>
      \<and> rollback 0 \<lparr>buf = 4096, cap_bytes = 1024, off_bytes = 64\<rparr>
          = Inr \<lparr>buf = 4096, cap_bytes = 1024, off_bytes = 0\<rparr>)
   \<and> (2000 > off_bytes \<lparr>buf = 4096, cap_bytes = 1024, off_bytes = 64\<rparr>
      \<and> (\<exists>e. rollback 2000 \<lparr>buf = 4096, cap_bytes = 1024, off_bytes = 64\<rparr> = Inl e))"
  using rollback_checks_offset_only[where m = 2000 and s = state2
      and a = "\<lparr>buf = 4096, cap_bytes = 1024, off_bytes = 64\<rparr>"]
    rollback_checks_offset_only[where m = 0 and s = state2
      and a = "\<lparr>buf = 4096, cap_bytes = 1024, off_bytes = 64\<rparr>"]
  by (simp add: state2_def arena2_def)

text \<open>The claim as stated fails: a mark taken from another arena, at offset 32, rolls an
  arena at offset 64 back without error.\<close>

theorem rollback_foreign_mark_counterexample:
  "rollback (mark \<lparr>buf = 8192, cap_bytes = 1024, off_bytes = 32\<rparr>)
     \<lparr>buf = 4096, cap_bytes = 1024, off_bytes = 64\<rparr>
   = Inr \<lparr>buf = 4096, cap_bytes = 1024, off_bytes = 32\<rparr>"
  by (simp add: rollback_def mark_def)

text \<open>
  Claim C9.  An in-bounds \<open>subview(r0, c0, rcount, ccount)\<close> of a view \<open>V\<close> succeeds, does
  not touch the memory, and returns a view with the stride of \<open>V\<close> whose element \<open>(i, j)\<close>
  has the address of element \<open>(r0 + i, c0 + j)\<close> of \<open>V\<close>: a value written through the
  subview is read back through the parent at these coordinates, and a value written
  through the parent is read back through the subview.
\<close>

theorem subview_aliases_parent:
  assumes "r0 + rcount \<le> rows V" and "c0 + ccount \<le> cols V"
  shows "\<exists>S. subview T V r0 c0 rcount ccount = Inr S
      \<and> lift (subview T V r0 c0 rcount ccount) s = Done S s
      \<and> stride S = stride V \<and> rows S = rcount \<and> cols S = ccount
      \<and> data S = elem_addr T V r0 c0
      \<and> (\<forall>i<rcount. \<forall>j<ccount.
            elem_addr T S i j = elem_addr T V (r0 + i) (c0 + j)
          \<and> (\<exists>t. view_set T S i j v s = Done () t
                \<and> view_get T V (r0 + i) (c0 + j) t = Done v t)
          \<and> (\<exists>t. view_set T V (r0 + i) (c0 + j) v s = Done () t
                \<and> view_get T S i j t = Done v t))"
  using assms
  by (auto simp: subview_def lift_def elem_addr_def view_set_def view_get_def algebra_simps)

theorem subview_aliases_parent_witness:
  "1 + 1 \<le> rows A2 \<and> 1 + 1 \<le> cols A2
   \<and> (\<exists>S. subview double_T A2 1 1 1 1 = Inr S
      \<and> lift (subview double_T A2 1 1 1 1) state2 = Done S state2
      \<and> stride S = stride A2 \<and> rows S = 1 \<and> cols S = 1
      \<and> data S = elem_addr double_T A2 1 1
      \<and> (\<forall>i<1. \<forall>j<1.
            elem_addr double_T S i j = elem_addr double_T A2 (1 + i) (1 + j)
          \<and> (\<exists>t. view_set double_T S i j 42 state2 = Done () t
                \<and> view_get double_T A2 (1 + i) (1 + j) t = Done 42 t)
          \<and> (\<exists>t. view_set double_T A2 (1 + i) (1 + j) 42 state2 = Done () t
                \<and> view_get double_T S i j t = Done 42 t)))"
proof -
  have h: "1 + 1 \<le> rows A2" "1 + 1 \<le> cols A2" by (simp_all add: A2_def)
  show ?thesis
    using h subview_aliases_parent[OF h, where T = double_T and s = state2 and v = 42] by simp
qed

text \<open>
  Claim C10, for the recursive core.  On zero-by-zero views \<open>strassen_rec\<close> returns at
  once and leaves the whole state as it was: no error, no write into \<open>C\<close>, no allocation
  from the arena, no change of the counters.
\<close>

theorem empty_input_returns_immediately:
  assumes "rows A = 0" "cols A = 0" "rows B = 0" "cols B = 0" "rows C = 0" "cols C = 0"
  shows "strassen_rec T ops A B C leaf s = Done () s"
  using assms by (simp add: strassen_rec.simps)

theorem empty_input_returns_immediately_witness:
  "rows \<lparr>data = 0, rows = 0, cols = 0, stride = 0\<rparr> = 0
   \<and> cols \<lparr>data = 0, rows = 0, cols = 0, stride = 0\<rparr> = 0
   \<and> strassen_rec double_T True \<lparr>data = 0, rows = 0, cols = 0, stride = 0\<rparr>
      \<lparr>data = 0, rows = 0, cols = 0, stride = 0\<rparr> \<lparr>data = 0, rows = 0, cols = 0, stride = 0\<rparr>
      1 state2 = Done () state2"
  using empty_input_returns_immediately[where A = "\<lparr>data = 0, rows = 0, cols = 0, stride = 0\<rparr>"
      and B = "\<lparr>data = 0, rows = 0, cols = 0, stride = 0\<rparr>"
      and C = "\<lparr>data = 0, rows = 0, cols = 0, stride = 0\<rparr>"
      and T = double_T and ops = True and s = state2 and leaf = 1]
  by simp

end
